theory Spec2Isabelle
  imports Complex_Main
begin

section \<open>Jack's car rental: the notebook's constants\<close>

text \<open>
  The notebook fixes its environment by module-level constants. They are gathered in a
  record so that statements can vary one of them (the rental credit, a rate) while the
  others stay fixed; \<open>notebook_params\<close> holds the values the notebook assigns.
  Counts, rates and bounds are Python integers (\<open>int\<close>); the 64-bit integers of
  the numpy arrays \<^verbatim>\<open>actions\<close> and \<^verbatim>\<open>policy\<close> are modelled as \<open>int\<close> too, their
  values staying within the move and car limits. Quantities that enter the
  floating-point accumulation are modelled as \<open>real\<close>, so rounding, infinities and
  NaN are not modelled; \<open>0.9\<close> and \<open>1e-4\<close> are the rationals \<open>9 / 10\<close> and \<open>1 / 10000\<close>.
\<close>

record params =
  MAX_CARS :: int
  MAX_MOVE_OF_CARS :: int
  RENTAL_REQUEST_FIRST_LOC :: int
  RENTAL_REQUEST_SECOND_LOC :: int
  RETURNS_FIRST_LOC :: int
  RETURNS_SECOND_LOC :: int
  DISCOUNT :: real
  RENTAL_CREDIT :: real
  MOVE_CAR_COST :: real
  POISSON_UPPER_BOUND :: int

definition notebook_params :: params where
  "notebook_params =
     \<lparr>MAX_CARS = 20, MAX_MOVE_OF_CARS = 5,
      RENTAL_REQUEST_FIRST_LOC = 3, RENTAL_REQUEST_SECOND_LOC = 4,
      RETURNS_FIRST_LOC = 3, RETURNS_SECOND_LOC = 2,
      DISCOUNT = 9 / 10, RENTAL_CREDIT = 10, MOVE_CAR_COST = 2,
      POISSON_UPPER_BOUND = 11\<rparr>"

text \<open>\<^verbatim>\<open>range(n)\<close>: the integers \<open>0, ..., n - 1\<close>, empty when \<open>n \<le> 0\<close>.\<close>

definition py_range :: "int \<Rightarrow> int list" where
  "py_range n = map int [0..<nat n]"

text \<open>\<^verbatim>\<open>actions = np.arange(-MAX_MOVE_OF_CARS, MAX_MOVE_OF_CARS + 1)\<close>\<close>

definition actions :: "params \<Rightarrow> int list" where
  "actions P = [- MAX_MOVE_OF_CARS P .. MAX_MOVE_OF_CARS P]"

section \<open>Memory, errors and sequencing\<close>

text \<open>
  The mutable objects of the notebook: the dictionary \<open>poisson_cache\<close> and the two
  numpy arrays \<^verbatim>\<open>value\<close> and \<^verbatim>\<open>policy\<close>. A two-dimensional array is a list of rows.
  Both call sites of \<open>expected_return\<close> pass the array \<^verbatim>\<open>value\<close> as \<open>state_value\<close>, by
  reference; the model reads it from the store.
\<close>

datatype error = IndexError | ValueError

record store =
  poisson_cache :: "int \<rightharpoonup> real"
  value_array :: "real list list"
  policy :: "int list list"

type_synonym 'a prog = "store \<Rightarrow> (error + 'a) \<times> store"

definition return :: "'a \<Rightarrow> 'a prog" where
  "return x g = (Inr x, g)"

definition lift :: "error + 'a \<Rightarrow> 'a prog" where
  "lift r g = (r, g)"

text \<open>Sequencing: an exception of the first statement skips the rest.\<close>

definition bindE :: "'a prog \<Rightarrow> ('a \<Rightarrow> 'b prog) \<Rightarrow> 'b prog" where
  "bindE m f g = (case m g of (Inl e, g') \<Rightarrow> (Inl e, g') | (Inr x, g') \<Rightarrow> f x g')"

text \<open>A \<^verbatim>\<open>for\<close> loop over a list, threading the variables the body assigns.\<close>

fun for_loop :: "'i list \<Rightarrow> ('i \<Rightarrow> 'acc \<Rightarrow> 'acc prog) \<Rightarrow> 'acc \<Rightarrow> 'acc prog" where
  "for_loop [] body acc = return acc"
| "for_loop (x # xs) body acc = bindE (body x acc) (for_loop xs body)"

subsection \<open>numpy indexing\<close>

text \<open>
  An index \<open>i\<close> into an axis of length \<open>n\<close>: \<open>-n \<le> i < 0\<close> counts from the end, \<open>0 \<le> i < n\<close>
  is the position itself, anything else raises \<^verbatim>\<open>IndexError\<close>.
\<close>

definition np_index :: "nat \<Rightarrow> int \<Rightarrow> error + nat" where
  "np_index n i =
     (if 0 \<le> i \<and> i < int n then Inr (nat i)
      else if - int n \<le> i \<and> i < 0 then Inr (nat (i + int n))
      else Inl IndexError)"

definition np_get :: "'a list list \<Rightarrow> int \<Rightarrow> int \<Rightarrow> error + 'a" where
  "np_get A i j =
     (case np_index (length A) i of
        Inl e \<Rightarrow> Inl e
      | Inr i' \<Rightarrow>
          (case np_index (length (A ! i')) j of
             Inl e \<Rightarrow> Inl e
           | Inr j' \<Rightarrow> Inr (A ! i' ! j')))"

definition np_set :: "'a list list \<Rightarrow> int \<Rightarrow> int \<Rightarrow> 'a \<Rightarrow> error + 'a list list" where
  "np_set A i j v =
     (case np_index (length A) i of
        Inl e \<Rightarrow> Inl e
      | Inr i' \<Rightarrow>
          (case np_index (length (A ! i')) j of
             Inl e \<Rightarrow> Inl e
           | Inr j' \<Rightarrow> Inr (A[i' := (A ! i')[j' := v]])))"

definition np_get1 :: "'a list \<Rightarrow> int \<Rightarrow> error + 'a" where
  "np_get1 xs i = (case np_index (length xs) i of Inl e \<Rightarrow> Inl e | Inr i' \<Rightarrow> Inr (xs ! i'))"

definition read_value :: "int \<Rightarrow> int \<Rightarrow> real prog" where
  "read_value i j g = (np_get (value_array g) i j, g)"

definition write_value :: "int \<Rightarrow> int \<Rightarrow> real \<Rightarrow> unit prog" where
  "write_value i j v g =
     (case np_set (value_array g) i j v of
        Inl e \<Rightarrow> (Inl e, g)
      | Inr A \<Rightarrow> (Inr (), g\<lparr>value_array := A\<rparr>))"

definition read_policy :: "int \<Rightarrow> int \<Rightarrow> int prog" where
  "read_policy i j g = (np_get (policy g) i j, g)"

definition write_policy :: "int \<Rightarrow> int \<Rightarrow> int \<Rightarrow> unit prog" where
  "write_policy i j a g =
     (case np_set (policy g) i j a of
        Inl e \<Rightarrow> (Inl e, g)
      | Inr A \<Rightarrow> (Inr (), g\<lparr>policy := A\<rparr>))"

section \<open>The probability cache\<close>

text \<open>
  \<^verbatim>\<open>scipy.stats.poisson.pmf(n, lam)\<close> is a library function; it is modelled by the formula
  its documentation gives, \<open>exp (- lam) * lam ^ n / n!\<close> for \<open>n \<ge> 0\<close> and \<open>0\<close> below.
\<close>

definition poisson_pmf :: "int \<Rightarrow> int \<Rightarrow> real" where
  "poisson_pmf n lam =
     (if n < 0 then 0
      else exp (- real_of_int lam) * real_of_int lam ^ nat n / fact (nat n))"

text \<open>\<^verbatim>\<open>key = n * 10 + lam\<close>\<close>

definition cache_key :: "int \<Rightarrow> int \<Rightarrow> int" where
  "cache_key n lam = n * 10 + lam"

definition poisson_probability :: "int \<Rightarrow> int \<Rightarrow> real prog" where
  "poisson_probability n lam g =
     (let key = cache_key n lam in
      case poisson_cache g key of
        None \<Rightarrow>
          (let v = poisson_pmf n lam
           in (Inr v, g\<lparr>poisson_cache := (poisson_cache g)(key \<mapsto> v)\<rparr>))
      | Some v \<Rightarrow> (Inr v, g))"

section \<open>The expected-return evaluator\<close>

text \<open>
  The \<^verbatim>\<open>else\<close> branch of \<open>expected_return\<close>: the two loops over the returned cars, for one
  pair of rental requests. \<open>prob\<close>, \<open>reward\<close> and the two counts are those the enclosing
  iteration has computed; \<open>returns\<close> is the running total.
\<close>

definition returned_cars_loops ::
  "params \<Rightarrow> real \<Rightarrow> real \<Rightarrow> int \<Rightarrow> int \<Rightarrow> real \<Rightarrow> real prog" where
  "returned_cars_loops P prob reward num_of_cars_first_loc num_of_cars_second_loc =
     for_loop (py_range (POISSON_UPPER_BOUND P)) (\<lambda>returned_cars_first_loc.
       for_loop (py_range (POISSON_UPPER_BOUND P)) (\<lambda>returned_cars_second_loc returns.
         bindE (poisson_probability returned_cars_first_loc (RETURNS_FIRST_LOC P)) (\<lambda>q1.
         bindE (poisson_probability returned_cars_second_loc (RETURNS_SECOND_LOC P)) (\<lambda>q2.
           let prob_return = q1 * q2;
               num_of_cars_first_loc' =
                 min (num_of_cars_first_loc + returned_cars_first_loc) (MAX_CARS P);
               num_of_cars_second_loc' =
                 min (num_of_cars_second_loc + returned_cars_second_loc) (MAX_CARS P);
               prob' = prob_return * prob
           in bindE (read_value num_of_cars_first_loc' num_of_cars_second_loc') (\<lambda>v.
                return (returns + prob' * (reward + DISCOUNT P * v)))))))"

text \<open>The body of the two loops over the rental requests.\<close>

definition rental_request_body ::
  "params \<Rightarrow> int \<Rightarrow> int \<Rightarrow> bool \<Rightarrow> int \<Rightarrow> int \<Rightarrow> real \<Rightarrow> real prog" where
  "rental_request_body P NUM_OF_CARS_FIRST_LOC NUM_OF_CARS_SECOND_LOC constant_returned_cars
       rental_request_first_loc rental_request_second_loc returns =
     bindE (poisson_probability rental_request_first_loc (RENTAL_REQUEST_FIRST_LOC P)) (\<lambda>p1.
     bindE (poisson_probability rental_request_second_loc (RENTAL_REQUEST_SECOND_LOC P)) (\<lambda>p2.
       let prob = p1 * p2;
           valid_rental_first_loc = min NUM_OF_CARS_FIRST_LOC rental_request_first_loc;
           valid_rental_second_loc = min NUM_OF_CARS_SECOND_LOC rental_request_second_loc;
           reward = real_of_int (valid_rental_first_loc + valid_rental_second_loc)
                      * RENTAL_CREDIT P;
           num_of_cars_first_loc = NUM_OF_CARS_FIRST_LOC - valid_rental_first_loc;
           num_of_cars_second_loc = NUM_OF_CARS_SECOND_LOC - valid_rental_second_loc
       in if constant_returned_cars then
            (let num_of_cars_first_loc' =
                   min (num_of_cars_first_loc + RETURNS_FIRST_LOC P) (MAX_CARS P);
                 num_of_cars_second_loc' =
                   min (num_of_cars_second_loc + RETURNS_SECOND_LOC P) (MAX_CARS P)
             in bindE (read_value num_of_cars_first_loc' num_of_cars_second_loc') (\<lambda>v.
                  return (returns + prob * (reward + DISCOUNT P * v))))
          else returned_cars_loops P prob reward num_of_cars_first_loc
                 num_of_cars_second_loc returns))"

text \<open>\<open>expected_return(state, action, state_value, constant_returned_cars)\<close>\<close>

definition expected_return :: "params \<Rightarrow> int \<times> int \<Rightarrow> int \<Rightarrow> bool \<Rightarrow> real prog" where
  "expected_return P state action constant_returned_cars =
     (let returns = 0 - MOVE_CAR_COST P * real_of_int \<bar>action\<bar>;
          NUM_OF_CARS_FIRST_LOC = min (fst state - action) (MAX_CARS P);
          NUM_OF_CARS_SECOND_LOC = min (snd state + action) (MAX_CARS P)
      in for_loop (py_range (POISSON_UPPER_BOUND P)) (\<lambda>rental_request_first_loc.
           for_loop (py_range (POISSON_UPPER_BOUND P))
             (rental_request_body P NUM_OF_CARS_FIRST_LOC NUM_OF_CARS_SECOND_LOC
                constant_returned_cars rental_request_first_loc))
           returns)"

section \<open>The policy-iteration driver\<close>

subsection \<open>Policy evaluation\<close>

text \<open>
  The body of the two loops of a sweep:
  \<^verbatim>\<open>new_state_value = expected_return([i, j], policy[i, j], value, constant_returned_cars)\<close>,
  then \<^verbatim>\<open>value[i, j] = new_state_value\<close>.
\<close>

definition evaluation_step :: "params \<Rightarrow> bool \<Rightarrow> int \<Rightarrow> int \<Rightarrow> unit \<Rightarrow> unit prog" where
  "evaluation_step P constant_returned_cars i j u =
     bindE (read_policy i j) (\<lambda>a.
     bindE (expected_return P (i, j) a constant_returned_cars) (\<lambda>new_state_value.
       write_value i j new_state_value))"

definition evaluation_sweep :: "params \<Rightarrow> bool \<Rightarrow> unit prog" where
  "evaluation_sweep P constant_returned_cars =
     for_loop (py_range (MAX_CARS P + 1)) (\<lambda>i.
       for_loop (py_range (MAX_CARS P + 1)) (evaluation_step P constant_returned_cars i)) ()"

text \<open>
  \<^verbatim>\<open>abs(old_value - value).max()\<close>: the largest entry of the element-wise absolute
  difference; numpy raises \<^verbatim>\<open>ValueError\<close> on an array without entries.
\<close>

definition abs_differences :: "real list list \<Rightarrow> real list list \<Rightarrow> real list" where
  "abs_differences old_value new_value =
     concat (map2 (map2 (\<lambda>a b. \<bar>a - b\<bar>)) old_value new_value)"

definition max_value_change :: "real list list \<Rightarrow> real list list \<Rightarrow> error + real" where
  "max_value_change old_value new_value =
     (case abs_differences old_value new_value of
        [] \<Rightarrow> Inl ValueError
      | d # ds \<Rightarrow> Inr (fold max ds d))"

text \<open>
  The inner \<^verbatim>\<open>while True\<close>: a sweep, then \<^verbatim>\<open>break\<close> when the change is below \<open>1e-4\<close>.
  \<open>None\<close> is a loop that never leaves; an exception ends it with \<open>Inl\<close>.
\<close>

partial_function (option) policy_evaluation ::
  "params \<Rightarrow> bool \<Rightarrow> store \<Rightarrow> ((error + unit) \<times> store) option" where
  "policy_evaluation P constant_returned_cars g =
     (let old_value = value_array g in
      case evaluation_sweep P constant_returned_cars g of
        (Inl e, g') \<Rightarrow> Some (Inl e, g')
      | (Inr u, g') \<Rightarrow>
          (case max_value_change old_value (value_array g') of
             Inl e \<Rightarrow> Some (Inl e, g')
           | Inr max_change \<Rightarrow>
               if max_change < 1 / 10000 then Some (Inr (), g')
               else policy_evaluation P constant_returned_cars g'))"

subsection \<open>Policy improvement\<close>

text \<open>An entry of \<open>action_returns\<close>: an expected return, or \<^verbatim>\<open>-np.inf\<close>.\<close>

datatype score = NegInf | Finite real

fun score_less :: "score \<Rightarrow> score \<Rightarrow> bool" where
  "score_less NegInf (Finite b) = True"
| "score_less (Finite a) (Finite b) = (a < b)"
| "score_less x NegInf = False"

text \<open>
  \<^verbatim>\<open>np.argmax\<close>: the index of the first occurrence of the largest entry, as a scan that
  replaces the best entry so far only by a strictly larger one; \<^verbatim>\<open>ValueError\<close> on an
  empty sequence.
\<close>

fun argmax_from :: "score list \<Rightarrow> nat \<Rightarrow> nat \<Rightarrow> score \<Rightarrow> nat" where
  "argmax_from [] k best_index best = best_index"
| "argmax_from (x # xs) k best_index best =
     (if score_less best x then argmax_from xs (Suc k) k x
      else argmax_from xs (Suc k) best_index best)"

definition np_argmax :: "score list \<Rightarrow> error + nat" where
  "np_argmax xs = (case xs of [] \<Rightarrow> Inl ValueError | x # rest \<Rightarrow> Inr (argmax_from rest 1 0 x))"

text \<open>\<^verbatim>\<open>(0 <= action <= i) or (-j <= action <= 0)\<close>\<close>

definition feasible :: "int \<Rightarrow> int \<Rightarrow> int \<Rightarrow> bool" where
  "feasible i j action \<longleftrightarrow> (0 \<le> action \<and> action \<le> i) \<or> (- j \<le> action \<and> action \<le> 0)"

text \<open>The loop \<^verbatim>\<open>for action in actions\<close> that fills \<open>action_returns\<close>.\<close>

definition action_returns :: "params \<Rightarrow> bool \<Rightarrow> int \<Rightarrow> int \<Rightarrow> score list prog" where
  "action_returns P constant_returned_cars i j =
     for_loop (actions P) (\<lambda>action returns_so_far.
       if feasible i j action then
         bindE (expected_return P (i, j) action constant_returned_cars) (\<lambda>r.
           return (returns_so_far @ [Finite r]))
       else return (returns_so_far @ [NegInf])) []"

text \<open>The body of the two loops of the improvement sweep, for the state \<open>(i, j)\<close>.\<close>

definition improve_state :: "params \<Rightarrow> bool \<Rightarrow> int \<Rightarrow> int \<Rightarrow> bool \<Rightarrow> bool prog" where
  "improve_state P constant_returned_cars i j policy_stable =
     bindE (read_policy i j) (\<lambda>old_action.
     bindE (action_returns P constant_returned_cars i j) (\<lambda>rs.
     bindE (lift (np_argmax rs)) (\<lambda>k.
     bindE (lift (np_get1 (actions P) (int k))) (\<lambda>new_action.
     bindE (write_policy i j new_action) (\<lambda>u.
       return (if policy_stable \<and> old_action \<noteq> new_action then False
               else policy_stable))))))"

definition policy_improvement :: "params \<Rightarrow> bool \<Rightarrow> bool prog" where
  "policy_improvement P constant_returned_cars =
     for_loop (py_range (MAX_CARS P + 1)) (\<lambda>i.
       for_loop (py_range (MAX_CARS P + 1)) (improve_state P constant_returned_cars i)) True"

subsection \<open>The outer loop\<close>

text \<open>
  Evaluation, then improvement, until an improvement sweep changes no action. The
  heat maps the notebook draws in between, and the counter \<open>iterations\<close> that selects
  their axes, are left out.
\<close>

partial_function (option) policy_iteration ::
  "params \<Rightarrow> bool \<Rightarrow> store \<Rightarrow> ((error + unit) \<times> store) option" where
  "policy_iteration P constant_returned_cars g =
     (case policy_evaluation P constant_returned_cars g of
        None \<Rightarrow> None
      | Some (Inl e, g1) \<Rightarrow> Some (Inl e, g1)
      | Some (Inr u, g1) \<Rightarrow>
          (case policy_improvement P constant_returned_cars g1 of
             (Inl e, g2) \<Rightarrow> Some (Inl e, g2)
           | (Inr policy_stable, g2) \<Rightarrow>
               if policy_stable then Some (Inr (), g2)
               else policy_iteration P constant_returned_cars g2))"

text \<open>
  The store the notebook starts from: an empty cache, \<^verbatim>\<open>np.zeros\<close> for both arrays.
\<close>

definition initial_store :: "params \<Rightarrow> store" where
  "initial_store P =
     \<lparr>poisson_cache = Map.empty,
      value_array = replicate (nat (MAX_CARS P + 1)) (replicate (nat (MAX_CARS P + 1)) 0),
      policy = replicate (nat (MAX_CARS P + 1)) (replicate (nat (MAX_CARS P + 1)) 0)\<rparr>"

section \<open>Specification-level notions\<close>

text \<open>
  The rates the key encoding supports, by the notebook's own comment
  (\<^verbatim>\<open>lambda should be less than 10 for this function\<close>).
\<close>

definition small_rate :: "int \<Rightarrow> bool" where
  "small_rate lam \<longleftrightarrow> 0 \<le> lam \<and> lam < 10"

text \<open>
  A cache whose every entry holds the probability mass of the pair its key decodes to.
  The empty dictionary is such a cache, and requests at rates below ten keep it so.
\<close>

definition cache_consistent :: "(int \<rightharpoonup> real) \<Rightarrow> bool" where
  "cache_consistent c \<longleftrightarrow> (\<forall>k v. c k = Some v \<longrightarrow> v = poisson_pmf (k div 10) (k mod 10))"

text \<open>Constants as the notebook's: a car limit that is not negative, rates below ten.\<close>

definition valid_params :: "params \<Rightarrow> bool" where
  "valid_params P \<longleftrightarrow>
     0 \<le> MAX_CARS P \<and> small_rate (RENTAL_REQUEST_FIRST_LOC P)
     \<and> small_rate (RENTAL_REQUEST_SECOND_LOC P)
     \<and> small_rate (RETURNS_FIRST_LOC P) \<and> small_rate (RETURNS_SECOND_LOC P)"

text \<open>An array of shape \<open>(MAX_CARS + 1, MAX_CARS + 1)\<close>.\<close>

definition table_shape :: "params \<Rightarrow> 'a list list \<Rightarrow> bool" where
  "table_shape P A \<longleftrightarrow>
     length A = nat (MAX_CARS P + 1) \<and> (\<forall>row \<in> set A. length row = nat (MAX_CARS P + 1))"

text \<open>A store with a consistent cache and the given two arrays.\<close>

definition store_inv :: "real list list \<Rightarrow> int list list \<Rightarrow> store \<Rightarrow> bool" where
  "store_inv V Pol g \<longleftrightarrow>
     cache_consistent (poisson_cache g) \<and> value_array g = V \<and> policy g = Pol"

text \<open>
  \<open>computes I m x\<close>: started in a store that satisfies \<open>I\<close>, the statement \<open>m\<close> raises
  nothing, yields \<open>x\<close> and leaves a store that satisfies \<open>I\<close>.
\<close>

definition computes :: "(store \<Rightarrow> bool) \<Rightarrow> 'a prog \<Rightarrow> 'a \<Rightarrow> bool" where
  "computes I m x \<longleftrightarrow> (\<forall>g. I g \<longrightarrow> fst (m g) = Inr x \<and> I (snd (m g)))"

text \<open>
  The value of one outcome, in the words of the specification: with post-move counts
  \<open>m1\<close>, \<open>m2\<close>, requests \<open>r1\<close>, \<open>r2\<close> and returns \<open>u1\<close>, \<open>u2\<close>, the valid rentals are
  the minimum of count and request, the reward is their sum times the rental credit, and
  the next state is the count after rentals plus the returns, clamped above to \<open>MAX_CARS\<close>.
\<close>

definition outcome_value ::
  "params \<Rightarrow> real list list \<Rightarrow> int \<Rightarrow> int \<Rightarrow> int \<Rightarrow> int \<Rightarrow> int \<Rightarrow> int \<Rightarrow> real" where
  "outcome_value P V m1 m2 r1 r2 u1 u2 =
     (let valid1 = min m1 r1; valid2 = min m2 r2;
          reward = real_of_int (valid1 + valid2) * RENTAL_CREDIT P
      in reward + DISCOUNT P *
           V ! nat (min (m1 - valid1 + u1) (MAX_CARS P))
             ! nat (min (m2 - valid2 + u2) (MAX_CARS P)))"

text \<open>
  The expected return as the specification states it: minus the move cost, plus the
  sum over all request pairs below the truncation bound of the joint probability times
  the outcome value; with Poisson returns, summed further over all return pairs.
\<close>

definition expected_return_sum ::
  "params \<Rightarrow> int \<times> int \<Rightarrow> int \<Rightarrow> real list list \<Rightarrow> bool \<Rightarrow> real" where
  "expected_return_sum P state action V simplify_returns =
     (let m1 = min (fst state - action) (MAX_CARS P);
          m2 = min (snd state + action) (MAX_CARS P);
          N = {0..<POISSON_UPPER_BOUND P}
      in - (MOVE_CAR_COST P * real_of_int \<bar>action\<bar>)
         + (\<Sum>r1\<in>N. \<Sum>r2\<in>N.
              if simplify_returns then
                poisson_pmf r1 (RENTAL_REQUEST_FIRST_LOC P)
                  * poisson_pmf r2 (RENTAL_REQUEST_SECOND_LOC P)
                  * outcome_value P V m1 m2 r1 r2 (RETURNS_FIRST_LOC P) (RETURNS_SECOND_LOC P)
              else
                (\<Sum>u1\<in>N. \<Sum>u2\<in>N.
                   poisson_pmf r1 (RENTAL_REQUEST_FIRST_LOC P)
                     * poisson_pmf r2 (RENTAL_REQUEST_SECOND_LOC P)
                     * (poisson_pmf u1 (RETURNS_FIRST_LOC P)
                          * poisson_pmf u2 (RETURNS_SECOND_LOC P))
                     * outcome_value P V m1 m2 r1 r2 u1 u2)))"

text \<open>The summand of \<open>expected_return_sum\<close> for one pair of requests.\<close>

definition request_term ::
  "params \<Rightarrow> real list list \<Rightarrow> bool \<Rightarrow> int \<Rightarrow> int \<Rightarrow> int \<Rightarrow> int \<Rightarrow> real" where
  "request_term P V simplify_returns m1 m2 r1 r2 =
     (if simplify_returns then
        poisson_pmf r1 (RENTAL_REQUEST_FIRST_LOC P)
          * poisson_pmf r2 (RENTAL_REQUEST_SECOND_LOC P)
          * outcome_value P V m1 m2 r1 r2 (RETURNS_FIRST_LOC P) (RETURNS_SECOND_LOC P)
      else
        (\<Sum>u1\<in>{0..<POISSON_UPPER_BOUND P}. \<Sum>u2\<in>{0..<POISSON_UPPER_BOUND P}.
           poisson_pmf r1 (RENTAL_REQUEST_FIRST_LOC P)
             * poisson_pmf r2 (RENTAL_REQUEST_SECOND_LOC P)
             * (poisson_pmf u1 (RETURNS_FIRST_LOC P) * poisson_pmf u2 (RETURNS_SECOND_LOC P))
             * outcome_value P V m1 m2 r1 r2 u1 u2))"

text \<open>
  The index pairs at which \<open>expected_return\<close> subscripts \<open>state_value\<close>, in the order of
  its loops: the loops and the index expressions are those of the function, the
  accumulation is left out.
\<close>

definition table_reads :: "params \<Rightarrow> int \<times> int \<Rightarrow> int \<Rightarrow> bool \<Rightarrow> (int \<times> int) list" where
  "table_reads P state action constant_returned_cars =
     (let NUM_OF_CARS_FIRST_LOC = min (fst state - action) (MAX_CARS P);
          NUM_OF_CARS_SECOND_LOC = min (snd state + action) (MAX_CARS P)
      in concat (map (\<lambda>rental_request_first_loc.
           concat (map (\<lambda>rental_request_second_loc.
             let num_of_cars_first_loc =
                   NUM_OF_CARS_FIRST_LOC - min NUM_OF_CARS_FIRST_LOC rental_request_first_loc;
                 num_of_cars_second_loc =
                   NUM_OF_CARS_SECOND_LOC - min NUM_OF_CARS_SECOND_LOC rental_request_second_loc
             in if constant_returned_cars then
                  [(min (num_of_cars_first_loc + RETURNS_FIRST_LOC P) (MAX_CARS P),
                    min (num_of_cars_second_loc + RETURNS_SECOND_LOC P) (MAX_CARS P))]
                else
                  concat (map (\<lambda>returned_cars_first_loc.
                    map (\<lambda>returned_cars_second_loc.
                      (min (num_of_cars_first_loc + returned_cars_first_loc) (MAX_CARS P),
                       min (num_of_cars_second_loc + returned_cars_second_loc) (MAX_CARS P)))
                      (py_range (POISSON_UPPER_BOUND P)))
                    (py_range (POISSON_UPPER_BOUND P))))
             (py_range (POISSON_UPPER_BOUND P))))
           (py_range (POISSON_UPPER_BOUND P))))"

text \<open>
  \<open>raises_iff m F\<close>: whatever the store, \<open>m\<close> leaves the value array as it is, and it
  raises, and then an \<open>IndexError\<close>, exactly when \<open>F\<close> holds of that array.
\<close>

definition raises_iff :: "'a prog \<Rightarrow> (real list list \<Rightarrow> bool) \<Rightarrow> bool" where
  "raises_iff m F \<longleftrightarrow>
     (\<forall>g. value_array (snd (m g)) = value_array g
          \<and> (case fst (m g) of Inl e \<Rightarrow> e = IndexError \<and> F (value_array g)
                               | Inr x \<Rightarrow> \<not> F (value_array g)))"

text \<open>The index pairs read in one iteration of the loops over the rental requests.\<close>

definition reads_of_request :: "params \<Rightarrow> bool \<Rightarrow> int \<Rightarrow> int \<Rightarrow> int \<Rightarrow> int \<Rightarrow> (int \<times> int) list" where
  "reads_of_request P c m1 m2 r1 r2 =
     (if c then
        [(min (m1 - min m1 r1 + RETURNS_FIRST_LOC P) (MAX_CARS P),
          min (m2 - min m2 r2 + RETURNS_SECOND_LOC P) (MAX_CARS P))]
      else
        concat (map (\<lambda>u1. map (\<lambda>u2.
            (min (m1 - min m1 r1 + u1) (MAX_CARS P), min (m2 - min m2 r2 + u2) (MAX_CARS P)))
          (py_range (POISSON_UPPER_BOUND P))) (py_range (POISSON_UPPER_BOUND P))))"

text \<open>
  \<open>memoising m\<close>: \<open>m\<close> leaves both arrays as they are and only adds entries to the cache,
  and run again in any store with the same value array whose cache extends the one it
  left, it gives the same result and changes nothing.
\<close>

definition memoising :: "'a prog \<Rightarrow> bool" where
  "memoising m \<longleftrightarrow>
     (\<forall>g. value_array (snd (m g)) = value_array g \<and> policy (snd (m g)) = policy g
          \<and> poisson_cache g \<subseteq>\<^sub>m poisson_cache (snd (m g))
          \<and> (\<forall>h. poisson_cache (snd (m g)) \<subseteq>\<^sub>m poisson_cache h \<and> value_array h = value_array g
                 \<longrightarrow> m h = (fst (m g), h)))"

text \<open>
  The coefficient of the rental credit in \<open>expected_return_sum\<close>: the rentals of each
  outcome, weighted as the outcome is.
\<close>

definition rentals_weight :: "params \<Rightarrow> bool \<Rightarrow> int \<Rightarrow> int \<Rightarrow> int \<Rightarrow> int \<Rightarrow> real" where
  "rentals_weight P simplify_returns m1 m2 r1 r2 =
     (if simplify_returns then
        poisson_pmf r1 (RENTAL_REQUEST_FIRST_LOC P)
          * poisson_pmf r2 (RENTAL_REQUEST_SECOND_LOC P)
          * real_of_int (min m1 r1 + min m2 r2)
      else
        (\<Sum>u1\<in>{0..<POISSON_UPPER_BOUND P}. \<Sum>u2\<in>{0..<POISSON_UPPER_BOUND P}.
           poisson_pmf r1 (RENTAL_REQUEST_FIRST_LOC P)
             * poisson_pmf r2 (RENTAL_REQUEST_SECOND_LOC P)
             * (poisson_pmf u1 (RETURNS_FIRST_LOC P) * poisson_pmf u2 (RETURNS_SECOND_LOC P))
             * real_of_int (min m1 r1 + min m2 r2)))"

text \<open>
  A store as the driver keeps it: a consistent cache and two arrays of shape
  \<open>(MAX_CARS + 1, MAX_CARS + 1)\<close>.
\<close>

definition store_ok :: "params \<Rightarrow> store \<Rightarrow> bool" where
  "store_ok P g \<longleftrightarrow>
     cache_consistent (poisson_cache g) \<and> table_shape P (value_array g)
     \<and> table_shape P (policy g)"

text \<open>
  The entry of \<open>action_returns\<close> for one action, in the words of the specification: the
  expected return of a feasible action, negative infinity for an infeasible one.
\<close>

definition action_score :: "params \<Rightarrow> bool \<Rightarrow> real list list \<Rightarrow> int \<Rightarrow> int \<Rightarrow> int \<Rightarrow> score" where
  "action_score P c V i j action =
     (if feasible i j action then Finite (expected_return_sum P (i, j) action V c)
      else NegInf)"

text \<open>The action \<^verbatim>\<open>actions[np.argmax(action_returns)]\<close> for the scores above.\<close>

definition greedy_action :: "params \<Rightarrow> bool \<Rightarrow> real list list \<Rightarrow> int \<Rightarrow> int \<Rightarrow> int" where
  "greedy_action P c V i j =
     (case np_argmax (map (action_score P c V i j) (actions P)) of
        Inl e \<Rightarrow> 0
      | Inr k \<Rightarrow> actions P ! k)"

text \<open>
  One step of a sweep in the words of the specification: the entry of the state
  \<open>(i, j)\<close> is overwritten, in the table as it stands, with the expected return of the
  policy's action there.
\<close>

definition sweep_step ::
  "params \<Rightarrow> bool \<Rightarrow> int list list \<Rightarrow> int \<times> int \<Rightarrow> real list list \<Rightarrow> real list list" where
  "sweep_step P c Pol s V =
     V[nat (fst s) := (V ! nat (fst s))
        [nat (snd s) := expected_return_sum P s (Pol ! nat (fst s) ! nat (snd s)) V c]]"

text \<open>The states in row-major order: \<open>(0, 0), (0, 1), ..., (1, 0), (1, 1), ...\<close>\<close>

definition row_major :: "params \<Rightarrow> (int \<times> int) list" where
  "row_major P = List.product (py_range (MAX_CARS P + 1)) (py_range (MAX_CARS P + 1))"

text \<open>A full sweep: the steps of all states in row-major order, each on the table the
  steps before it have left.\<close>

definition in_place_sweep ::
  "params \<Rightarrow> bool \<Rightarrow> int list list \<Rightarrow> real list list \<Rightarrow> real list list" where
  "in_place_sweep P c Pol V = fold (sweep_step P c Pol) (row_major P) V"

text \<open>
  \<open>transforms Pol K m f\<close>: from a store with a consistent cache, the policy \<open>Pol\<close> and a
  value array \<open>V\<close> that satisfies \<open>K\<close>, the statement \<open>m\<close> raises nothing and leaves a
  consistent cache, the same policy and the value array \<open>f V\<close>, which satisfies \<open>K\<close>.
\<close>

definition transforms ::
  "int list list \<Rightarrow> (real list list \<Rightarrow> bool) \<Rightarrow> 'a prog
     \<Rightarrow> (real list list \<Rightarrow> real list list) \<Rightarrow> bool" where
  "transforms Pol K m f \<longleftrightarrow>
     (\<forall>V g. K V \<and> store_inv V Pol g \<longrightarrow>
        (\<exists>x g'. m g = (Inr x, g') \<and> store_inv (f V) Pol g' \<and> K (f V)))"

text \<open>The table after \<open>n\<close> sweeps.\<close>

definition sweeps ::
  "params \<Rightarrow> bool \<Rightarrow> int list list \<Rightarrow> nat \<Rightarrow> real list list \<Rightarrow> real list list" where
  "sweeps P c Pol n V = (in_place_sweep P c Pol ^^ n) V"

text \<open>
  The test that ends the evaluation phase, for the sweep that starts from \<open>V\<close>: the
  largest absolute difference between \<open>V\<close>, the snapshot, and the table after the sweep
  is below \<open>1e-4\<close>.
\<close>

definition sweep_converged :: "params \<Rightarrow> bool \<Rightarrow> int list list \<Rightarrow> real list list \<Rightarrow> bool" where
  "sweep_converged P c Pol V \<longleftrightarrow>
     (case max_value_change V (in_place_sweep P c Pol V) of
        Inl e \<Rightarrow> False
      | Inr d \<Rightarrow> d < 1 / 10000)"

text \<open>A policy whose every entry is feasible for its state and within the move limit.\<close>

definition policy_feasible :: "params \<Rightarrow> int list list \<Rightarrow> bool" where
  "policy_feasible P Pol \<longleftrightarrow>
     (\<forall>i j. 0 \<le> i \<and> i \<le> MAX_CARS P \<and> 0 \<le> j \<and> j \<le> MAX_CARS P \<longrightarrow>
        feasible i j (Pol ! nat i ! nat j)
        \<and> - MAX_MOVE_OF_CARS P \<le> Pol ! nat i ! nat j
        \<and> Pol ! nat i ! nat j \<le> MAX_MOVE_OF_CARS P)"

text \<open>
  \<open>succeeds I m\<close>: from a store that satisfies \<open>I\<close>, the statement \<open>m\<close> raises nothing
  and leaves a store that satisfies \<open>I\<close>.
\<close>

definition succeeds :: "(store \<Rightarrow> bool) \<Rightarrow> 'a prog \<Rightarrow> bool" where
  "succeeds I m \<longleftrightarrow> (\<forall>g. I g \<longrightarrow> (\<exists>x. fst (m g) = Inr x) \<and> I (snd (m g)))"

text \<open>The entry of a table at a state.\<close>

definition table_entry :: "'a list list \<Rightarrow> int \<times> int \<Rightarrow> 'a" where
  "table_entry A s = A ! nat (fst s) ! nat (snd s)"

text \<open>The table when a sweep reaches the state at position \<open>p\<close> of the row-major order.\<close>

definition partly_swept ::
  "params \<Rightarrow> bool \<Rightarrow> int list list \<Rightarrow> nat \<Rightarrow> real list list \<Rightarrow> real list list" where
  "partly_swept P c Pol p V = fold (sweep_step P c Pol) (take p (row_major P)) V"

section \<open>The probability cache at rates below ten\<close>

lemma cache_key_decode:
  "small_rate lam \<Longrightarrow> cache_key n lam div 10 = n \<and> cache_key n lam mod 10 = lam"
  by (simp add: small_rate_def cache_key_def)

lemma cache_key_inj:
  assumes "small_rate r1" "small_rate r2" "cache_key c1 r1 = cache_key c2 r2"
  shows "c1 = c2 \<and> r1 = r2"
  using assms unfolding small_rate_def cache_key_def by presburger

lemma cache_consistent_empty: "cache_consistent Map.empty"
  by (simp add: cache_consistent_def)

lemma poisson_probability_frame:
  "value_array (snd (poisson_probability n lam g)) = value_array g
   \<and> policy (snd (poisson_probability n lam g)) = policy g"
  by (simp add: poisson_probability_def Let_def split: option.splits)

lemma poisson_probability_consistent:
  assumes "small_rate lam" "cache_consistent (poisson_cache g)"
  shows "fst (poisson_probability n lam g) = Inr (poisson_pmf n lam)
         \<and> cache_consistent (poisson_cache (snd (poisson_probability n lam g)))"
proof (cases "poisson_cache g (cache_key n lam)")
  case None
  then show ?thesis
    using assms cache_key_decode[OF assms(1), of n]
    by (auto simp: poisson_probability_def Let_def cache_consistent_def)
next
  case (Some v)
  then have "v = poisson_pmf n lam"
    using assms(2) cache_key_decode[OF assms(1), of n] unfolding cache_consistent_def
    by metis
  with Some show ?thesis
    using assms(2) by (simp add: poisson_probability_def Let_def)
qed

lemma pmf_collision: "poisson_pmf 0 13 \<noteq> poisson_pmf 1 3"
proof -
  have "exp (- 13 :: real) < exp (- 3)" by simp
  also have "\<dots> \<le> exp (- 3) * 3" by simp
  finally show ?thesis by (simp add: poisson_pmf_def)
qed

section \<open>Statements that compute a value\<close>

lemma computesI: "(\<And>g. I g \<Longrightarrow> fst (m g) = Inr x \<and> I (snd (m g))) \<Longrightarrow> computes I m x"
  by (simp add: computes_def)

lemma computesD: "computes I m x \<Longrightarrow> I g \<Longrightarrow> fst (m g) = Inr x \<and> I (snd (m g))"
  by (simp add: computes_def)

lemma computes_return: "computes I (return x) x"
  by (simp add: computes_def return_def)

lemma computes_bindE:
  assumes "computes I m x" "computes I (f x) y"
  shows "computes I (bindE m f) y"
proof (rule computesI)
  fix g assume "I g"
  from computesD[OF assms(1) this] obtain g' where m: "m g = (Inr x, g')" and "I g'"
    by (cases "m g") auto
  from computesD[OF assms(2) \<open>I g'\<close>] show "fst (bindE m f g) = Inr y \<and> I (snd (bindE m f g))"
    using m by (simp add: bindE_def)
qed

lemma computes_for_loop:
  assumes "\<And>x acc. x \<in> set xs \<Longrightarrow> computes I (body x acc) (F x acc)"
  shows "computes I (for_loop xs body acc) (fold F xs acc)"
  using assms
proof (induction xs arbitrary: acc)
  case Nil
  show ?case by (simp add: computes_return)
next
  case (Cons x xs)
  show ?case
    by (simp, rule computes_bindE[where x = "F x acc"]) (simp_all add: Cons)
qed

lemma fold_add_sum_list:
  "fold (\<lambda>x acc. acc + h x) xs (acc :: real) = acc + sum_list (map h xs)"
  by (induction xs arbitrary: acc) (simp_all add: add.assoc)

lemma computes_for_loop_sum:
  assumes "\<And>x acc. x \<in> set xs \<Longrightarrow> computes I (body x acc) (acc + h x)"
  shows "computes I (for_loop xs body (acc :: real)) (acc + sum_list (map h xs))"
  using computes_for_loop[of xs I body "\<lambda>x acc. acc + h x" acc] assms
  by (simp add: fold_add_sum_list)

lemma computes_poisson_probability:
  "small_rate lam \<Longrightarrow> computes (store_inv V Pol) (poisson_probability n lam) (poisson_pmf n lam)"
  using poisson_probability_consistent[of lam _ n] poisson_probability_frame[of n lam]
  by (simp add: computes_def store_inv_def)

lemma np_get_in_range:
  assumes "table_shape P A" "0 \<le> i" "i \<le> MAX_CARS P" "0 \<le> j" "j \<le> MAX_CARS P"
  shows "np_get A i j = Inr (A ! nat i ! nat j)"
proof -
  have i: "nat i < length A" using assms by (simp add: table_shape_def)
  then have "length (A ! nat i) = nat (MAX_CARS P + 1)"
    using assms(1) by (simp add: table_shape_def)
  then show ?thesis using assms i by (simp add: np_get_def np_index_def)
qed

lemma computes_read_value:
  assumes "table_shape P V" "0 \<le> i" "i \<le> MAX_CARS P" "0 \<le> j" "j \<le> MAX_CARS P"
  shows "computes (store_inv V Pol) (read_value i j) (V ! nat i ! nat j)"
  using np_get_in_range[OF assms]
  by (simp add: computes_def store_inv_def read_value_def)

section \<open>The expected return as a sum\<close>

lemma set_py_range: "set (py_range n) = {0..<n}"
proof -
  have "int ` {0..<nat n} = {0..<n}"
  proof (rule set_eqI)
    fix x show "x \<in> int ` {0..<nat n} \<longleftrightarrow> x \<in> {0..<n}"
    proof
      assume "x \<in> int ` {0..<nat n}" then show "x \<in> {0..<n}" by auto
    next
      assume "x \<in> {0..<n}"
      then have "x = int (nat x)" "nat x \<in> {0..<nat n}" by auto
      then show "x \<in> int ` {0..<nat n}" by (rule image_eqI)
    qed
  qed
  then show ?thesis by (simp add: py_range_def)
qed

lemma distinct_py_range: "distinct (py_range n)"
  by (simp add: py_range_def distinct_map)

lemma sum_list_py_range: "sum_list (map f (py_range n)) = (\<Sum>x\<in>{0..<n}. (f x :: real))"
  using sum_list_distinct_conv_sum_set[OF distinct_py_range, of f n] by (simp add: set_py_range)

lemma computes_returned_cars_loops:
  assumes vp: "valid_params P" and sh: "table_shape P V" and n1: "0 \<le> n1" and n2: "0 \<le> n2"
  shows "computes (store_inv V Pol) (returned_cars_loops P prob reward n1 n2 returns)
           (returns + (\<Sum>u1\<in>{0..<POISSON_UPPER_BOUND P}. \<Sum>u2\<in>{0..<POISSON_UPPER_BOUND P}.
              poisson_pmf u1 (RETURNS_FIRST_LOC P) * poisson_pmf u2 (RETURNS_SECOND_LOC P) * prob
                * (reward + DISCOUNT P * V ! nat (min (n1 + u1) (MAX_CARS P))
                                           ! nat (min (n2 + u2) (MAX_CARS P)))))"
proof -
  let ?N = "POISSON_UPPER_BOUND P"
  let ?h = "\<lambda>u1 u2. poisson_pmf u1 (RETURNS_FIRST_LOC P) * poisson_pmf u2 (RETURNS_SECOND_LOC P) * prob
                * (reward + DISCOUNT P * V ! nat (min (n1 + u1) (MAX_CARS P))
                                           ! nat (min (n2 + u2) (MAX_CARS P)))"
  have M: "0 \<le> MAX_CARS P" and s1: "small_rate (RETURNS_FIRST_LOC P)"
    and s2: "small_rate (RETURNS_SECOND_LOC P)"
    using vp by (simp_all add: valid_params_def)
  have inner: "computes (store_inv V Pol)
      (bindE (poisson_probability u1 (RETURNS_FIRST_LOC P)) (\<lambda>q1.
         bindE (poisson_probability u2 (RETURNS_SECOND_LOC P)) (\<lambda>q2.
           let prob_return = q1 * q2;
               num_of_cars_first_loc' = min (n1 + u1) (MAX_CARS P);
               num_of_cars_second_loc' = min (n2 + u2) (MAX_CARS P);
               prob' = prob_return * prob
           in bindE (read_value num_of_cars_first_loc' num_of_cars_second_loc') (\<lambda>v.
                return (acc + prob' * (reward + DISCOUNT P * v))))))
      (acc + ?h u1 u2)"
    if "u1 \<in> set (py_range ?N)" "u2 \<in> set (py_range ?N)" for u1 u2 acc
  proof -
    have u: "0 \<le> u1" "0 \<le> u2" using that by (simp_all add: set_py_range)
    have r: "computes (store_inv V Pol)
        (read_value (min (n1 + u1) (MAX_CARS P)) (min (n2 + u2) (MAX_CARS P)))
        (V ! nat (min (n1 + u1) (MAX_CARS P)) ! nat (min (n2 + u2) (MAX_CARS P)))"
      using M n1 n2 u by (intro computes_read_value[OF sh]) auto
    show ?thesis
      apply (rule computes_bindE[OF computes_poisson_probability[OF s1]])
      apply (rule computes_bindE[OF computes_poisson_probability[OF s2]])
      apply (simp only: Let_def)
      apply (rule computes_bindE[OF r])
      apply (rule computes_return)
      done
  qed
  have "computes (store_inv V Pol) (returned_cars_loops P prob reward n1 n2 returns)
          (returns + sum_list (map (\<lambda>u1. sum_list (map (?h u1) (py_range ?N))) (py_range ?N)))"
    unfolding returned_cars_loops_def
    by (rule computes_for_loop_sum, rule computes_for_loop_sum, rule inner)
  then show ?thesis by (simp add: sum_list_py_range)
qed

lemma expected_return_sum_request_term:
  "expected_return_sum P state action V c =
     - (MOVE_CAR_COST P * real_of_int \<bar>action\<bar>)
     + (\<Sum>r1\<in>{0..<POISSON_UPPER_BOUND P}. \<Sum>r2\<in>{0..<POISSON_UPPER_BOUND P}.
          request_term P V c (min (fst state - action) (MAX_CARS P))
            (min (snd state + action) (MAX_CARS P)) r1 r2)"
  by (simp add: expected_return_sum_def request_term_def Let_def)

lemma computes_rental_request_body:
  assumes vp: "valid_params P" and sh: "table_shape P V"
  shows "computes (store_inv V Pol) (rental_request_body P m1 m2 c r1 r2 returns)
           (returns + request_term P V c m1 m2 r1 r2)"
proof -
  have M: "0 \<le> MAX_CARS P" and s1: "small_rate (RENTAL_REQUEST_FIRST_LOC P)"
    and s2: "small_rate (RENTAL_REQUEST_SECOND_LOC P)"
    and t1: "0 \<le> RETURNS_FIRST_LOC P" and t2: "0 \<le> RETURNS_SECOND_LOC P"
    using vp by (simp_all add: valid_params_def small_rate_def)
  have k1: "0 \<le> m1 - min m1 r1" and k2: "0 \<le> m2 - min m2 r2" by auto
  show ?thesis
  proof (cases c)
    case True
    have r: "computes (store_inv V Pol)
        (read_value (min (m1 - min m1 r1 + RETURNS_FIRST_LOC P) (MAX_CARS P))
                    (min (m2 - min m2 r2 + RETURNS_SECOND_LOC P) (MAX_CARS P)))
        (V ! nat (min (m1 - min m1 r1 + RETURNS_FIRST_LOC P) (MAX_CARS P))
           ! nat (min (m2 - min m2 r2 + RETURNS_SECOND_LOC P) (MAX_CARS P)))"
      using M t1 t2 k1 k2 by (intro computes_read_value[OF sh]) auto
    show ?thesis
      unfolding rental_request_body_def
      apply (rule computes_bindE[OF computes_poisson_probability[OF s1]])
      apply (rule computes_bindE[OF computes_poisson_probability[OF s2]])
      apply (simp only: Let_def True if_True)
      apply (rule computes_bindE[OF r])
      apply (simp add: request_term_def outcome_value_def Let_def True computes_return)
      done
  next
    case False
    have eq: "(\<Sum>u1\<in>{0..<POISSON_UPPER_BOUND P}. \<Sum>u2\<in>{0..<POISSON_UPPER_BOUND P}.
              poisson_pmf u1 (RETURNS_FIRST_LOC P) * poisson_pmf u2 (RETURNS_SECOND_LOC P)
                * (poisson_pmf r1 (RENTAL_REQUEST_FIRST_LOC P)
                     * poisson_pmf r2 (RENTAL_REQUEST_SECOND_LOC P))
                * (real_of_int (min m1 r1 + min m2 r2) * RENTAL_CREDIT P
                   + DISCOUNT P * V ! nat (min (m1 - min m1 r1 + u1) (MAX_CARS P))
                                    ! nat (min (m2 - min m2 r2 + u2) (MAX_CARS P))))
          = request_term P V False m1 m2 r1 r2"
      by (simp add: request_term_def outcome_value_def Let_def mult_ac)
    show ?thesis
      unfolding rental_request_body_def
      apply (rule computes_bindE[OF computes_poisson_probability[OF s1]])
      apply (rule computes_bindE[OF computes_poisson_probability[OF s2]])
      apply (simp only: Let_def False if_False)
      apply (subst eq[symmetric])
      apply (rule computes_returned_cars_loops[OF vp sh k1 k2])
      done
  qed
qed

lemma computes_expected_return:
  assumes vp: "valid_params P" and sh: "table_shape P V"
  shows "computes (store_inv V Pol) (expected_return P state action c)
           (expected_return_sum P state action V c)"
proof -
  let ?N = "POISSON_UPPER_BOUND P"
  let ?m1 = "min (fst state - action) (MAX_CARS P)"
  let ?m2 = "min (snd state + action) (MAX_CARS P)"
  have "computes (store_inv V Pol) (expected_return P state action c)
          (0 - MOVE_CAR_COST P * real_of_int \<bar>action\<bar>
           + sum_list (map (\<lambda>r1. sum_list (map (request_term P V c ?m1 ?m2 r1) (py_range ?N)))
                        (py_range ?N)))"
    unfolding expected_return_def Let_def
    by (rule computes_for_loop_sum, rule computes_for_loop_sum,
        rule computes_rental_request_body[OF vp sh])
  then show ?thesis
    by (simp add: sum_list_py_range expected_return_sum_request_term)
qed

lemma valid_notebook_params: "valid_params notebook_params"
  by (simp add: valid_params_def notebook_params_def small_rate_def)

lemma table_shape_replicate:
  "table_shape P (replicate (nat (MAX_CARS P + 1)) (replicate (nat (MAX_CARS P + 1)) x))"
  by (simp add: table_shape_def)

lemma initial_store_ok:
  "cache_consistent (poisson_cache (initial_store P))
   \<and> table_shape P (value_array (initial_store P)) \<and> table_shape P (policy (initial_store P))"
  by (simp add: initial_store_def cache_consistent_empty table_shape_replicate)

section \<open>When the evaluator raises\<close>

lemma raises_iff_return: "raises_iff (return x) (\<lambda>V. False)"
  by (simp add: raises_iff_def return_def)

lemma raises_iff_poisson_probability: "raises_iff (poisson_probability n lam) (\<lambda>V. False)"
  by (simp add: raises_iff_def poisson_probability_def Let_def split: option.splits)

lemma np_index_error: "np_index n i = Inl e \<Longrightarrow> e = IndexError"
  by (simp add: np_index_def split: if_splits)

lemma np_get_error: "np_get A i j = Inl e \<Longrightarrow> e = IndexError"
  by (auto simp: np_get_def split: sum.splits dest: np_index_error)

lemma raises_iff_read_value:
  "raises_iff (read_value i j) (\<lambda>V. np_get V i j = Inl IndexError)"
  by (auto simp: raises_iff_def read_value_def split: sum.splits dest: np_get_error)

lemma raises_iff_bindE:
  assumes "raises_iff m F" "\<And>x. raises_iff (f x) G"
  shows "raises_iff (bindE m f) (\<lambda>V. F V \<or> G V)"
  unfolding raises_iff_def
proof (intro allI)
  fix g
  obtain r g1 where m: "m g = (r, g1)" by (cases "m g")
  have v1: "value_array g1 = value_array g"
    using assms(1) m by (auto simp: raises_iff_def dest: spec[of _ g])
  show "value_array (snd (bindE m f g)) = value_array g \<and>
        (case fst (bindE m f g) of Inl e \<Rightarrow> e = IndexError \<and> (F (value_array g) \<or> G (value_array g))
         | Inr x \<Rightarrow> \<not> (F (value_array g) \<or> G (value_array g)))"
  proof (cases r)
    case (Inl e)
    then show ?thesis
      using assms(1) m by (auto simp: raises_iff_def bindE_def dest: spec[of _ g])
  next
    case (Inr x)
    then have nf: "\<not> F (value_array g)"
      using assms(1) m by (auto simp: raises_iff_def dest: spec[of _ g])
    have b: "bindE m f g = f x g1" using m Inr by (simp add: bindE_def)
    show ?thesis
      using assms(2)[of x] nf v1 unfolding b raises_iff_def
      by (auto dest!: spec[of _ g1] split: sum.splits)
  qed
qed

lemma raises_iff_cong:
  assumes "raises_iff m F" "\<And>V. F V = G V"
  shows "raises_iff m G"
proof -
  have "F = G" using assms(2) by (rule ext)
  then show ?thesis using assms(1) by simp
qed

lemma raises_iff_for_loop:
  assumes "\<And>x acc. x \<in> set xs \<Longrightarrow> raises_iff (body x acc) (F x)"
  shows "raises_iff (for_loop xs body acc) (\<lambda>V. \<exists>x\<in>set xs. F x V)"
  using assms
proof (induction xs arbitrary: acc)
  case Nil
  show ?case using raises_iff_return by simp
next
  case (Cons x xs)
  have "raises_iff (bindE (body x acc) (for_loop xs body)) (\<lambda>V. F x V \<or> (\<exists>y\<in>set xs. F y V))"
    by (rule raises_iff_bindE) (simp_all add: Cons)
  then show ?case by (simp add: raises_iff_def)
qed

lemma raises_iff_returned_cars_loops:
  "raises_iff (returned_cars_loops P prob reward n1 n2 returns)
     (\<lambda>V. \<exists>u1\<in>set (py_range (POISSON_UPPER_BOUND P)). \<exists>u2\<in>set (py_range (POISSON_UPPER_BOUND P)).
        np_get V (min (n1 + u1) (MAX_CARS P)) (min (n2 + u2) (MAX_CARS P)) = Inl IndexError)"
  unfolding returned_cars_loops_def
  apply (rule raises_iff_for_loop)
  apply (rule raises_iff_for_loop)
  apply (rule raises_iff_cong)
   apply (rule raises_iff_bindE[OF raises_iff_poisson_probability])
   apply (rule raises_iff_bindE[OF raises_iff_poisson_probability])
   apply (simp only: Let_def)
   apply (rule raises_iff_bindE[OF raises_iff_read_value])
   apply (rule raises_iff_return)
  apply simp
  done

lemma raises_iff_rental_request_body:
  "raises_iff (rental_request_body P m1 m2 c r1 r2 returns)
     (\<lambda>V. \<exists>ij\<in>set (reads_of_request P c m1 m2 r1 r2). np_get V (fst ij) (snd ij) = Inl IndexError)"
proof (cases c)
  case True
  show ?thesis
    unfolding rental_request_body_def
    apply (rule raises_iff_cong)
     apply (rule raises_iff_bindE[OF raises_iff_poisson_probability])
     apply (rule raises_iff_bindE[OF raises_iff_poisson_probability])
     apply (simp only: Let_def True if_True)
     apply (rule raises_iff_bindE[OF raises_iff_read_value])
     apply (rule raises_iff_return)
    apply (simp add: reads_of_request_def True)
    done
next
  case False
  show ?thesis
    unfolding rental_request_body_def
    apply (rule raises_iff_cong)
     apply (rule raises_iff_bindE[OF raises_iff_poisson_probability])
     apply (rule raises_iff_bindE[OF raises_iff_poisson_probability])
     apply (simp only: Let_def False if_False)
     apply (rule raises_iff_returned_cars_loops)
    apply (auto simp add: reads_of_request_def False)
    done
qed

lemma table_reads_requests:
  "table_reads P state action c =
     concat (map (\<lambda>r1. concat (map (\<lambda>r2.
         reads_of_request P c (min (fst state - action) (MAX_CARS P))
           (min (snd state + action) (MAX_CARS P)) r1 r2)
       (py_range (POISSON_UPPER_BOUND P)))) (py_range (POISSON_UPPER_BOUND P)))"
  by (simp add: table_reads_def reads_of_request_def Let_def)

lemma raises_iff_expected_return:
  "raises_iff (expected_return P state action c)
     (\<lambda>V. \<exists>ij\<in>set (table_reads P state action c). np_get V (fst ij) (snd ij) = Inl IndexError)"
  unfolding expected_return_def Let_def
  apply (rule raises_iff_cong)
   apply (rule raises_iff_for_loop)
   apply (rule raises_iff_for_loop)
   apply (rule raises_iff_rental_request_body)
  apply (auto simp add: table_reads_requests)
  done

lemma reads_of_request_bounds:
  assumes "0 \<le> MAX_CARS P" "0 \<le> RETURNS_FIRST_LOC P" "0 \<le> RETURNS_SECOND_LOC P"
    and "ij \<in> set (reads_of_request P c m1 m2 r1 r2)"
  shows "0 \<le> fst ij \<and> fst ij \<le> MAX_CARS P \<and> 0 \<le> snd ij \<and> snd ij \<le> MAX_CARS P"
proof (cases c)
  case True
  then show ?thesis using assms by (auto simp: reads_of_request_def)
next
  case False
  then obtain u1 u2 where "0 \<le> u1" "0 \<le> u2"
    and "ij = (min (m1 - min m1 r1 + u1) (MAX_CARS P), min (m2 - min m2 r2 + u2) (MAX_CARS P))"
    using assms(4) by (auto simp: reads_of_request_def set_py_range)
  then show ?thesis using assms(1) by auto
qed

lemma table_reads_bounds:
  assumes "0 \<le> MAX_CARS P" "0 \<le> RETURNS_FIRST_LOC P" "0 \<le> RETURNS_SECOND_LOC P"
    and "ij \<in> set (table_reads P state action c)"
  shows "0 \<le> fst ij \<and> fst ij \<le> MAX_CARS P \<and> 0 \<le> snd ij \<and> snd ij \<le> MAX_CARS P"
proof -
  from assms(4) obtain r1 r2 where
    "ij \<in> set (reads_of_request P c (min (fst state - action) (MAX_CARS P))
                 (min (snd state + action) (MAX_CARS P)) r1 r2)"
    by (auto simp: table_reads_requests)
  then show ?thesis by (rule reads_of_request_bounds[OF assms(1-3)])
qed

lemma expected_return_raises:
  "fst (expected_return P state action c g) = Inl e \<longleftrightarrow>
     e = IndexError \<and> (\<exists>ij\<in>set (table_reads P state action c).
                          np_get (value_array g) (fst ij) (snd ij) = Inl IndexError)"
proof -
  let ?F = "\<exists>ij\<in>set (table_reads P state action c).
              np_get (value_array g) (fst ij) (snd ij) = Inl IndexError"
  have "case fst (expected_return P state action c g) of
          Inl e \<Rightarrow> e = IndexError \<and> ?F | Inr x \<Rightarrow> \<not> ?F"
    using raises_iff_expected_return[of P state action c] by (simp add: raises_iff_def)
  then show ?thesis
    by (cases "fst (expected_return P state action c g)") auto
qed

lemma expected_return_no_raise:
  assumes "0 \<le> MAX_CARS P" "0 \<le> RETURNS_FIRST_LOC P" "0 \<le> RETURNS_SECOND_LOC P"
    and "table_shape P (value_array g)"
  shows "fst (expected_return P state action c g) \<noteq> Inl e"
proof
  assume "fst (expected_return P state action c g) = Inl e"
  then obtain ij where ij: "ij \<in> set (table_reads P state action c)"
    and bad: "np_get (value_array g) (fst ij) (snd ij) = Inl IndexError"
    by (auto simp: expected_return_raises)
  from table_reads_bounds[OF assms(1-3) ij] np_get_in_range[OF assms(4)] bad
  show False by simp
qed

lemma table_reads_notebook_True:
  "(3, 2) \<in> set (table_reads notebook_params (3, 1) 2 True)"
proof -
  have "(1::int) \<in> set (py_range 11)" "(3::int) \<in> set (py_range 11)"
    by (simp_all add: set_py_range)
  then show ?thesis
    unfolding table_reads_def Let_def
    by (simp add: notebook_params_def)
       (rule bexI[of _ 1], rule image_eqI[of _ _ 3], simp_all)
qed

section \<open>The evaluator leaves the arrays alone\<close>

lemma memoisingI:
  assumes "\<And>g. value_array (snd (m g)) = value_array g"
    and "\<And>g. policy (snd (m g)) = policy g"
    and "\<And>g. poisson_cache g \<subseteq>\<^sub>m poisson_cache (snd (m g))"
    and "\<And>g h. poisson_cache (snd (m g)) \<subseteq>\<^sub>m poisson_cache h \<Longrightarrow> value_array h = value_array g
            \<Longrightarrow> m h = (fst (m g), h)"
  shows "memoising m"
  using assms by (simp add: memoising_def)

lemma memoisingD:
  assumes "memoising m"
  shows "value_array (snd (m g)) = value_array g" "policy (snd (m g)) = policy g"
    "poisson_cache g \<subseteq>\<^sub>m poisson_cache (snd (m g))"
    "poisson_cache (snd (m g)) \<subseteq>\<^sub>m poisson_cache h \<Longrightarrow> value_array h = value_array g
       \<Longrightarrow> m h = (fst (m g), h)"
  using assms by (simp_all add: memoising_def)

lemma memoising_return: "memoising (return x)"
  by (simp add: memoising_def return_def)

lemma memoising_read_value: "memoising (read_value i j)"
  by (simp add: memoising_def read_value_def)

lemma memoising_poisson_probability: "memoising (poisson_probability n lam)"
proof (rule memoisingI)
  fix g h :: store
  show "value_array (snd (poisson_probability n lam g)) = value_array g"
    and "policy (snd (poisson_probability n lam g)) = policy g"
    by (simp_all add: poisson_probability_frame)
  show "poisson_cache g \<subseteq>\<^sub>m poisson_cache (snd (poisson_probability n lam g))"
    by (auto simp: poisson_probability_def Let_def map_le_def split: option.splits)
  assume le: "poisson_cache (snd (poisson_probability n lam g)) \<subseteq>\<^sub>m poisson_cache h"
  show "poisson_probability n lam h = (fst (poisson_probability n lam g), h)"
  proof (cases "poisson_cache g (cache_key n lam)")
    case None
    then have "poisson_cache h (cache_key n lam) = Some (poisson_pmf n lam)"
      using le by (auto simp: poisson_probability_def Let_def map_le_def dom_def)
    then show ?thesis using None by (simp add: poisson_probability_def Let_def)
  next
    case (Some v)
    then have "poisson_cache h (cache_key n lam) = Some v"
      using le by (auto simp: poisson_probability_def Let_def map_le_def dom_def)
    then show ?thesis using Some by (simp add: poisson_probability_def Let_def)
  qed
qed

lemma memoising_bindE:
  assumes "memoising m" "\<And>x. memoising (f x)"
  shows "memoising (bindE m f)"
proof (rule memoisingI)
  fix g h :: store
  obtain r g1 where m: "m g = (r, g1)" by (cases "m g")
  have g1: "value_array g1 = value_array g" "policy g1 = policy g"
    "poisson_cache g \<subseteq>\<^sub>m poisson_cache g1"
    using memoisingD(1-3)[OF assms(1), where g = g] m by simp_all
  have stab: "m h' = (r, h')"
    if "poisson_cache g1 \<subseteq>\<^sub>m poisson_cache h'" "value_array h' = value_array g" for h'
    using memoisingD(4)[OF assms(1), where g = g and h = h'] that m by simp
  show "value_array (snd (bindE m f g)) = value_array g"
    using m g1 memoisingD(1)[OF assms(2), where g = g1] by (cases r) (simp_all add: bindE_def)
  show "policy (snd (bindE m f g)) = policy g"
    using m g1 memoisingD(2)[OF assms(2), where g = g1] by (cases r) (simp_all add: bindE_def)
  show "poisson_cache g \<subseteq>\<^sub>m poisson_cache (snd (bindE m f g))"
  proof (cases r)
    case (Inl e)
    then show ?thesis using m g1 by (simp add: bindE_def)
  next
    case (Inr x)
    then show ?thesis
      using m map_le_trans[OF g1(3) memoisingD(3)[OF assms(2)[of x], where g = g1]]
      by (simp add: bindE_def)
  qed
  assume le: "poisson_cache (snd (bindE m f g)) \<subseteq>\<^sub>m poisson_cache h"
    and v: "value_array h = value_array g"
  show "bindE m f h = (fst (bindE m f g), h)"
  proof (cases r)
    case (Inl e)
    then have "m h = (Inl e, h)" using stab[of h] le v m by (simp add: bindE_def)
    then show ?thesis using m Inl by (simp add: bindE_def)
  next
    case (Inr x)
    then have b: "bindE m f g = f x g1" using m by (simp add: bindE_def)
    have "poisson_cache g1 \<subseteq>\<^sub>m poisson_cache h"
      using map_le_trans[OF memoisingD(3)[OF assms(2)[of x], where g = g1]] le b by simp
    then have mh: "m h = (Inr x, h)" using stab[of h] v Inr by simp
    have "f x h = (fst (f x g1), h)"
      using memoisingD(4)[OF assms(2)[of x], where g = g1 and h = h] le b v g1 by simp
    then show ?thesis using mh b by (simp add: bindE_def)
  qed
qed

lemma memoising_for_loop:
  assumes "\<And>x acc. memoising (body x acc)"
  shows "memoising (for_loop xs body acc)"
proof (induction xs arbitrary: acc)
  case Nil
  show ?case by (simp add: memoising_return)
next
  case (Cons x xs)
  show ?case by (simp add: memoising_bindE assms Cons)
qed

lemma memoising_returned_cars_loops:
  "memoising (returned_cars_loops P prob reward n1 n2 returns)"
  unfolding returned_cars_loops_def Let_def
  by (intro memoising_for_loop memoising_bindE memoising_poisson_probability
        memoising_read_value memoising_return)

lemma memoising_rental_request_body:
  "memoising (rental_request_body P m1 m2 c r1 r2 returns)"
  unfolding rental_request_body_def Let_def
  by (cases c; simp only: if_True if_False;
      intro memoising_bindE memoising_poisson_probability memoising_read_value
        memoising_return memoising_returned_cars_loops)

lemma memoising_expected_return: "memoising (expected_return P state action c)"
  unfolding expected_return_def Let_def
  by (intro memoising_for_loop memoising_rental_request_body)

section \<open>The rental credit\<close>

lemma poisson_pmf_nonneg: "0 \<le> lam \<Longrightarrow> 0 \<le> poisson_pmf n lam"
  by (simp add: poisson_pmf_def)

lemma poisson_pmf_pos: "0 < lam \<Longrightarrow> 0 \<le> n \<Longrightarrow> 0 < poisson_pmf n lam"
  by (simp add: poisson_pmf_def)

lemma outcome_value_credit:
  "outcome_value (P\<lparr>RENTAL_CREDIT := x\<rparr>) V m1 m2 r1 r2 u1 u2
     = outcome_value P V m1 m2 r1 r2 u1 u2
       + real_of_int (min m1 r1 + min m2 r2) * (x - RENTAL_CREDIT P)"
  by (simp add: outcome_value_def Let_def algebra_simps)

lemma request_term_credit:
  "request_term (P\<lparr>RENTAL_CREDIT := x\<rparr>) V c m1 m2 r1 r2
     = request_term P V c m1 m2 r1 r2 + (x - RENTAL_CREDIT P) * rentals_weight P c m1 m2 r1 r2"
proof (cases c)
  case True
  then show ?thesis
    by (simp add: request_term_def rentals_weight_def outcome_value_credit algebra_simps)
next
  case False
  then show ?thesis
    by (simp add: request_term_def rentals_weight_def outcome_value_credit
          distrib_left sum.distrib sum_distrib_left mult_ac)
qed

lemma expected_return_sum_credit:
  "expected_return_sum (P\<lparr>RENTAL_CREDIT := x\<rparr>) state action V c
     = expected_return_sum P state action V c
       + (x - RENTAL_CREDIT P)
         * (\<Sum>r1\<in>{0..<POISSON_UPPER_BOUND P}. \<Sum>r2\<in>{0..<POISSON_UPPER_BOUND P}.
              rentals_weight P c (min (fst state - action) (MAX_CARS P))
                (min (snd state + action) (MAX_CARS P)) r1 r2)"
  by (simp add: expected_return_sum_request_term request_term_credit sum.distrib
        sum_distrib_left)

lemma rentals_weight_nonneg:
  assumes "valid_params P" "0 \<le> m1" "0 \<le> m2" "0 \<le> r1" "0 \<le> r2"
  shows "0 \<le> rentals_weight P c m1 m2 r1 r2"
proof -
  have p: "0 \<le> poisson_pmf a (RENTAL_REQUEST_FIRST_LOC P)"
    "0 \<le> poisson_pmf a (RENTAL_REQUEST_SECOND_LOC P)"
    "0 \<le> poisson_pmf a (RETURNS_FIRST_LOC P)" "0 \<le> poisson_pmf a (RETURNS_SECOND_LOC P)" for a
    using assms(1) by (simp_all add: valid_params_def small_rate_def poisson_pmf_nonneg)
  have v: "0 \<le> real_of_int (min m1 r1) + real_of_int (min m2 r2)" using assms(2-5) by simp
  show ?thesis
    unfolding rentals_weight_def
    by (cases c) (auto intro!: sum_nonneg mult_nonneg_nonneg p v)
qed

lemma rentals_weight_no_cars: "rentals_weight P c 0 0 r1 r2 = 0" if "0 \<le> r1" "0 \<le> r2"
  using that by (simp add: rentals_weight_def)

lemma post_move_nonneg:
  assumes "0 \<le> n1" "0 \<le> n2" "feasible n1 n2 a" "0 \<le> M"
  shows "0 \<le> min (n1 - a) M \<and> 0 \<le> min (n2 + a) M"
  using assms by (auto simp: feasible_def)

lemma expected_return_sum_mono_credit:
  assumes vp: "valid_params P" and "0 \<le> n1" "0 \<le> n2" "feasible n1 n2 a"
    and le: "RENTAL_CREDIT P \<le> x"
  shows "expected_return_sum P (n1, n2) a V c
           \<le> expected_return_sum (P\<lparr>RENTAL_CREDIT := x\<rparr>) (n1, n2) a V c"
proof -
  have M: "0 \<le> MAX_CARS P" using vp by (simp add: valid_params_def)
  have m: "0 \<le> min (n1 - a) (MAX_CARS P)" "0 \<le> min (n2 + a) (MAX_CARS P)"
    using post_move_nonneg[OF assms(2-4) M] by simp_all
  have "0 \<le> (\<Sum>r1\<in>{0..<POISSON_UPPER_BOUND P}. \<Sum>r2\<in>{0..<POISSON_UPPER_BOUND P}.
              rentals_weight P c (min (n1 - a) (MAX_CARS P)) (min (n2 + a) (MAX_CARS P)) r1 r2)"
    by (intro sum_nonneg rentals_weight_nonneg[OF vp m]) simp_all
  then have "0 \<le> (x - RENTAL_CREDIT P)
      * (\<Sum>r1\<in>{0..<POISSON_UPPER_BOUND P}. \<Sum>r2\<in>{0..<POISSON_UPPER_BOUND P}.
              rentals_weight P c (min (n1 - a) (MAX_CARS P)) (min (n2 + a) (MAX_CARS P)) r1 r2)"
    using le by (intro mult_nonneg_nonneg) simp_all
  then show ?thesis by (simp add: expected_return_sum_credit)
qed

lemma expected_return_sum_no_cars:
  assumes "0 \<le> MAX_CARS P"
  shows "expected_return_sum (P\<lparr>RENTAL_CREDIT := x\<rparr>) (0, 0) 0 V c
           = expected_return_sum P (0, 0) 0 V c"
  using assms by (simp add: expected_return_sum_credit rentals_weight_no_cars)

lemma valid_params_credit: "valid_params (P\<lparr>RENTAL_CREDIT := x\<rparr>) = valid_params P"
  by (simp add: valid_params_def)

lemma table_shape_credit: "table_shape (P\<lparr>RENTAL_CREDIT := x\<rparr>) A = table_shape P A"
  by (simp add: table_shape_def)

lemma expected_return_value:
  assumes "valid_params P" "table_shape P (value_array g)" "cache_consistent (poisson_cache g)"
  shows "fst (expected_return P state action c g)
           = Inr (expected_return_sum P state action (value_array g) c)"
proof -
  have "store_inv (value_array g) (policy g) g"
    using assms(3) by (simp add: store_inv_def)
  with computes_expected_return[OF assms(1,2)] show ?thesis
    by (simp add: computes_def)
qed

lemma rentals_weight_infeasible:
  "(\<Sum>r1\<in>{0..<POISSON_UPPER_BOUND notebook_params}.
      \<Sum>r2\<in>{0..<POISSON_UPPER_BOUND notebook_params}.
        rentals_weight notebook_params True (min (fst (0, 0) - 1) (MAX_CARS notebook_params))
          (min (snd (0, 0) + 1) (MAX_CARS notebook_params)) r1 r2) < 0"
proof -
  let ?w = "\<lambda>r1 r2. poisson_pmf r1 3 * poisson_pmf r2 4 * real_of_int (min (- 1) r1 + min 1 r2)"
  have inner: "(\<Sum>r2\<in>{0..<11::int}. ?w r1 r2) < 0" if "r1 \<in> {0..<11}" for r1
  proof -
    have r1: "0 \<le> r1" using that by simp
    have "0 < (\<Sum>r2\<in>{0..<11::int}. - ?w r1 r2)"
    proof (rule sum_pos2[where i = 0])
      show "0 < - ?w r1 0" using r1 poisson_pmf_pos[of 3 r1] poisson_pmf_pos[of 4 0]
        by (simp add: min_def)
      show "0 \<le> - ?w r1 r2" if "r2 \<in> {0..<11}" for r2
      proof -
        have "min (- 1) r1 + min 1 r2 \<le> 0" using r1 that by auto
        then have "real_of_int (min (- 1) r1 + min 1 r2) \<le> 0" by linarith
        moreover have "0 \<le> poisson_pmf r1 3 * poisson_pmf r2 4"
          by (simp add: poisson_pmf_nonneg)
        ultimately have "?w r1 r2 \<le> 0" by (simp add: mult_nonneg_nonpos)
        then show ?thesis by simp
      qed
    qed simp_all
    then show ?thesis by (simp add: sum_negf)
  qed
  have "(\<Sum>r1\<in>{0..<11::int}. \<Sum>r2\<in>{0..<11::int}. ?w r1 r2) < 0"
  proof -
    have "0 < (\<Sum>r1\<in>{0..<11::int}. - (\<Sum>r2\<in>{0..<11::int}. ?w r1 r2))"
      by (rule sum_pos) (use inner in auto)
    then show ?thesis by (simp add: sum_negf)
  qed
  then show ?thesis by (simp add: rentals_weight_def notebook_params_def)
qed

section \<open>The improvement of one state\<close>

lemma score_less_irrefl: "\<not> score_less a a"
  by (cases a) simp_all

lemma score_le_less_trans: "\<not> score_less b a \<Longrightarrow> score_less b c \<Longrightarrow> score_less a c"
  by (cases a; cases b; cases c) simp_all

lemma score_less_asym: "score_less a b \<Longrightarrow> \<not> score_less b a"
  by (cases a; cases b) simp_all

lemma argmax_from_spec:
  assumes "k = length pre" "bi < k" "b = pre ! bi"
    and "\<forall>n<k. \<not> score_less b (pre ! n)" "\<forall>n<bi. score_less (pre ! n) b"
  shows "argmax_from xs k bi b < length (pre @ xs)
         \<and> (\<forall>n<length (pre @ xs). \<not> score_less ((pre @ xs) ! argmax_from xs k bi b) ((pre @ xs) ! n))
         \<and> (\<forall>n<argmax_from xs k bi b. score_less ((pre @ xs) ! n) ((pre @ xs) ! argmax_from xs k bi b))"
  using assms
proof (induction xs arbitrary: pre k bi b)
  case Nil
  then show ?case by simp
next
  case (Cons x xs)
  show ?case
  proof (cases "score_less b x")
    case True
    have 1: "Suc k = length (pre @ [x])" using Cons.prems(1) by simp
    have 2: "k < Suc k" by simp
    have 3: "x = (pre @ [x]) ! k" using Cons.prems(1) by simp
    have 4: "\<forall>n<Suc k. \<not> score_less x ((pre @ [x]) ! n)"
    proof (intro allI impI)
      fix n assume n: "n < Suc k"
      show "\<not> score_less x ((pre @ [x]) ! n)"
      proof (cases "n < k")
        case True
        then have "\<not> score_less b (pre ! n)" using Cons.prems(4) by simp
        then have "score_less (pre ! n) x" using \<open>score_less b x\<close> by (rule score_le_less_trans)
        then have "\<not> score_less x (pre ! n)" by (rule score_less_asym)
        then show ?thesis using True Cons.prems(1) by (simp add: nth_append)
      next
        case False
        then have "n = k" using n by simp
        then show ?thesis using Cons.prems(1) by (simp add: score_less_irrefl)
      qed
    qed
    have 5: "\<forall>n<k. score_less ((pre @ [x]) ! n) x"
    proof (intro allI impI)
      fix n assume n: "n < k"
      then have "\<not> score_less b (pre ! n)" using Cons.prems(4) by simp
      then have "score_less (pre ! n) x" using \<open>score_less b x\<close> by (rule score_le_less_trans)
      then show "score_less ((pre @ [x]) ! n) x" using n Cons.prems(1) by (simp add: nth_append)
    qed
    from Cons.IH[OF 1 2 3 4 5] True show ?thesis by simp
  next
    case False
    have 1: "Suc k = length (pre @ [x])" using Cons.prems(1) by simp
    have 2: "bi < Suc k" using Cons.prems(2) by simp
    have 3: "b = (pre @ [x]) ! bi" using Cons.prems(1,2,3) by (simp add: nth_append)
    have 4: "\<forall>n<Suc k. \<not> score_less b ((pre @ [x]) ! n)"
      using Cons.prems(1,4) False by (auto simp: nth_append less_Suc_eq)
    have 5: "\<forall>n<bi. score_less ((pre @ [x]) ! n) b"
      using Cons.prems(1,2,5) by (auto simp: nth_append)
    from Cons.IH[OF 1 2 3 4 5] False show ?thesis by simp
  qed
qed

lemma np_argmax_spec:
  assumes "xs \<noteq> []"
  shows "\<exists>k. np_argmax xs = Inr k \<and> k < length xs
             \<and> (\<forall>n<length xs. \<not> score_less (xs ! k) (xs ! n))
             \<and> (\<forall>n<k. score_less (xs ! n) (xs ! k))"
proof -
  obtain x rest where xs: "xs = x # rest" using assms by (cases xs) auto
  have "argmax_from rest 1 0 x < length ([x] @ rest)
         \<and> (\<forall>n<length ([x] @ rest). \<not> score_less (([x] @ rest) ! argmax_from rest 1 0 x) (([x] @ rest) ! n))
         \<and> (\<forall>n<argmax_from rest 1 0 x. score_less (([x] @ rest) ! n) (([x] @ rest) ! argmax_from rest 1 0 x))"
    by (rule argmax_from_spec) (simp_all add: score_less_irrefl)
  then show ?thesis by (simp add: xs np_argmax_def)
qed

lemma length_actions: "length (actions P) = nat (2 * MAX_MOVE_OF_CARS P + 1)"
  by (simp add: actions_def)

lemma nth_actions:
  "k < length (actions P) \<Longrightarrow> actions P ! k = - MAX_MOVE_OF_CARS P + int k"
  by (simp add: actions_def)

lemma set_actions: "set (actions P) = {- MAX_MOVE_OF_CARS P .. MAX_MOVE_OF_CARS P}"
  by (simp add: actions_def)

lemma zero_in_actions: "0 \<le> MAX_MOVE_OF_CARS P \<Longrightarrow> 0 \<in> set (actions P)"
  by (simp add: set_actions)

lemma fold_snoc_map: "fold (\<lambda>a rs. rs @ [f a]) xs acc = acc @ map f xs"
  by (induction xs arbitrary: acc) simp_all

lemma computes_action_returns:
  assumes vp: "valid_params P" and sh: "table_shape P V"
  shows "computes (store_inv V Pol) (action_returns P c i j)
           (map (action_score P c V i j) (actions P))"
proof -
  have "computes (store_inv V Pol) (action_returns P c i j)
          (fold (\<lambda>a rs. rs @ [action_score P c V i j a]) (actions P) [])"
    unfolding action_returns_def
  proof (rule computes_for_loop)
    fix a rs
    show "computes (store_inv V Pol)
            (if feasible i j a
             then bindE (expected_return P (i, j) a c) (\<lambda>r. return (rs @ [Finite r]))
             else return (rs @ [NegInf]))
            (rs @ [action_score P c V i j a])"
    proof (cases "feasible i j a")
      case True
      then show ?thesis
        by (simp add: action_score_def)
           (rule computes_bindE[OF computes_expected_return[OF vp sh]], rule computes_return)
    next
      case False
      then show ?thesis by (simp add: action_score_def computes_return)
    qed
  qed
  then show ?thesis by (simp add: fold_snoc_map)
qed

lemma np_set_in_range:
  assumes "table_shape P A" "0 \<le> i" "i \<le> MAX_CARS P" "0 \<le> j" "j \<le> MAX_CARS P"
  shows "np_set A i j v = Inr (A[nat i := (A ! nat i)[nat j := v]])"
proof -
  have i: "nat i < length A" using assms by (simp add: table_shape_def)
  then have "length (A ! nat i) = nat (MAX_CARS P + 1)"
    using assms(1) by (simp add: table_shape_def)
  then show ?thesis using assms i by (simp add: np_set_def np_index_def)
qed

lemma table_shape_update:
  assumes "table_shape P A"
  shows "table_shape P (A[i := (A ! i)[j := v]])"
proof (cases "i < length A")
  case True
  then have "length (A ! i) = nat (MAX_CARS P + 1)" using assms by (simp add: table_shape_def)
  then show ?thesis
    using assms True by (auto simp: table_shape_def dest!: set_update_subset_insert[THEN subsetD])
next
  case False
  then have "A[i := (A ! i)[j := v]] = A" by (intro list_update_beyond) simp
  then show ?thesis using assms by simp
qed

lemma greedy_action_index:
  assumes "0 \<le> MAX_MOVE_OF_CARS P"
  shows "\<exists>k. np_argmax (map (action_score P c V i j) (actions P)) = Inr k
             \<and> k < length (actions P) \<and> greedy_action P c V i j = actions P ! k
             \<and> (\<forall>n<length (actions P). \<not> score_less (action_score P c V i j (actions P ! k))
                                             (action_score P c V i j (actions P ! n)))
             \<and> (\<forall>n<k. score_less (action_score P c V i j (actions P ! n))
                                  (action_score P c V i j (actions P ! k)))"
proof -
  have ne: "map (action_score P c V i j) (actions P) \<noteq> []"
    using zero_in_actions[OF assms] by auto
  from np_argmax_spec[OF ne] obtain k where
    k: "np_argmax (map (action_score P c V i j) (actions P)) = Inr k" "k < length (actions P)"
    and mx: "\<forall>n<length (actions P). \<not> score_less (map (action_score P c V i j) (actions P) ! k)
                                         (map (action_score P c V i j) (actions P) ! n)"
    and fs: "\<forall>n<k. score_less (map (action_score P c V i j) (actions P) ! n)
                              (map (action_score P c V i j) (actions P) ! k)"
    by auto
  have "greedy_action P c V i j = actions P ! k" using k by (simp add: greedy_action_def)
  moreover have "\<forall>n<length (actions P). \<not> score_less (action_score P c V i j (actions P ! k))
                                             (action_score P c V i j (actions P ! n))"
    using mx k(2) by simp
  moreover have "\<forall>n<k. score_less (action_score P c V i j (actions P ! n))
                                  (action_score P c V i j (actions P ! k))"
    using fs k(2) by simp
  ultimately show ?thesis using k by blast
qed

lemma improve_state_run:
  assumes vp: "valid_params P" and ok: "store_ok P g"
    and i: "0 \<le> i" "i \<le> MAX_CARS P" and j: "0 \<le> j" "j \<le> MAX_CARS P"
    and mv: "0 \<le> MAX_MOVE_OF_CARS P"
  shows "\<exists>g1. action_returns P c i j g
                 = (Inr (map (action_score P c (value_array g) i j) (actions P)), g1)
           \<and> cache_consistent (poisson_cache g1)
           \<and> improve_state P c i j st g
               = (Inr (if st \<and> policy g ! nat i ! nat j \<noteq> greedy_action P c (value_array g) i j
                       then False else st),
                  g1\<lparr>policy := (policy g)[nat i := (policy g ! nat i)
                                    [nat j := greedy_action P c (value_array g) i j]]\<rparr>)
           \<and> value_array g1 = value_array g \<and> policy g1 = policy g"
proof -
  let ?V = "value_array g" and ?Pol = "policy g"
  let ?rs = "map (action_score P c ?V i j) (actions P)"
  have shV: "table_shape P ?V" and shP: "table_shape P ?Pol"
    and inv: "store_inv ?V ?Pol g"
    using ok by (simp_all add: store_ok_def store_inv_def)
  from computesD[OF computes_action_returns[OF vp shV, of ?Pol c i j] inv]
  obtain g1 where ar: "action_returns P c i j g = (Inr ?rs, g1)" and inv1: "store_inv ?V ?Pol g1"
    by (cases "action_returns P c i j g") auto
  have g1: "cache_consistent (poisson_cache g1)" "value_array g1 = ?V" "policy g1 = ?Pol"
    using inv1 by (simp_all add: store_inv_def)
  from greedy_action_index[OF mv, of c ?V i j] obtain k where
    k: "np_argmax ?rs = Inr k" "k < length (actions P)"
       "greedy_action P c ?V i j = actions P ! k"
    by blast
  have rp: "read_policy i j g = (Inr (?Pol ! nat i ! nat j), g)"
    using np_get_in_range[OF shP i j] by (simp add: read_policy_def)
  have ga: "np_get1 (actions P) (int k) = Inr (greedy_action P c ?V i j)"
    using k by (simp add: np_get1_def np_index_def)
  have wp: "write_policy i j a g1 = (Inr (), g1\<lparr>policy := ?Pol[nat i := (?Pol ! nat i)[nat j := a]]\<rparr>)"
    for a using np_set_in_range[OF shP i j] g1 by (simp add: write_policy_def)
  have "improve_state P c i j st g
               = (Inr (if st \<and> ?Pol ! nat i ! nat j \<noteq> greedy_action P c ?V i j
                       then False else st),
                  g1\<lparr>policy := ?Pol[nat i := (?Pol ! nat i)[nat j := greedy_action P c ?V i j]]\<rparr>)"
    unfolding improve_state_def
    by (simp add: bindE_def rp ar k(1) ga wp lift_def return_def)
  then show ?thesis using ar g1 by blast
qed

lemma np_get_after_update:
  assumes "table_shape P A" "0 \<le> i" "i \<le> MAX_CARS P" "0 \<le> j" "j \<le> MAX_CARS P"
  shows "np_get (A[nat i := (A ! nat i)[nat j := v]]) i j = Inr v"
proof -
  have i: "nat i < length A" using assms by (simp add: table_shape_def)
  then have "length (A ! nat i) = nat (MAX_CARS P + 1)"
    using assms(1) by (simp add: table_shape_def)
  then have "(A[nat i := (A ! nat i)[nat j := v]]) ! nat i ! nat j = v"
    using i assms by simp
  then show ?thesis
    using np_get_in_range[OF table_shape_update[OF assms(1)] assms(2-5), of "nat i" "nat j" v]
    by simp
qed

lemma feasible_zero: "0 \<le> i \<Longrightarrow> feasible i j 0"
  by (simp add: feasible_def)

lemma feasible_no_cars: "feasible 0 0 b \<longleftrightarrow> b = 0"
  by (auto simp: feasible_def)

lemma greedy_action_feasible:
  assumes "0 \<le> MAX_MOVE_OF_CARS P" "0 \<le> i"
  shows "feasible i j (greedy_action P c V i j) \<and> greedy_action P c V i j \<in> set (actions P)"
proof -
  from greedy_action_index[OF assms(1), of c V i j] obtain k where
    k: "k < length (actions P)" "greedy_action P c V i j = actions P ! k"
    and mx: "\<forall>n<length (actions P). \<not> score_less (action_score P c V i j (actions P ! k))
                                         (action_score P c V i j (actions P ! n))"
    by blast
  let ?z = "nat (MAX_MOVE_OF_CARS P)"
  have z: "?z < length (actions P)" "actions P ! ?z = 0"
    using assms(1) by (simp_all add: length_actions nth_actions)
  have "\<not> score_less (action_score P c V i j (actions P ! k)) (action_score P c V i j 0)"
    using mx z by metis
  then have "feasible i j (actions P ! k)"
    using feasible_zero[OF assms(2), of j] by (auto simp: action_score_def split: if_splits)
  then show ?thesis using k by simp
qed

lemma initial_store_store_ok: "store_ok P (initial_store P)"
  using initial_store_ok[of P] by (simp add: store_ok_def)

lemma notebook_bounds:
  "(0::int) \<le> 3" "3 \<le> MAX_CARS notebook_params" "(0::int) \<le> 1" "1 \<le> MAX_CARS notebook_params"
  "0 \<le> MAX_MOVE_OF_CARS notebook_params"
  by (simp_all add: notebook_params_def)

section \<open>The evaluation sweep\<close>

lemma transformsD:
  assumes "transforms Pol K m f" "K V" "store_inv V Pol g"
  shows "\<exists>x g'. m g = (Inr x, g') \<and> store_inv (f V) Pol g' \<and> K (f V)"
  using assms by (auto simp: transforms_def)

lemma transforms_for_loop:
  assumes "\<And>x acc. x \<in> set xs \<Longrightarrow> transforms Pol K (body x acc) (F x)"
  shows "transforms Pol K (for_loop xs body acc) (fold F xs)"
  using assms
proof (induction xs arbitrary: acc)
  case Nil
  show ?case by (simp add: transforms_def return_def)
next
  case (Cons x xs)
  show ?case
    unfolding transforms_def
  proof (intro allI impI)
    fix V g assume a: "K V \<and> store_inv V Pol g"
    have t: "transforms Pol K (body x acc) (F x)" by (rule Cons.prems) simp
    from transformsD[OF t, of V g] a obtain y g1 where
      1: "body x acc g = (Inr y, g1)" "store_inv (F x V) Pol g1" "K (F x V)"
      by auto
    have "transforms Pol K (for_loop xs body y) (fold F xs)"
      by (rule Cons.IH) (simp add: Cons.prems)
    from transformsD[OF this 1(3) 1(2)] obtain z g2 where
      2: "for_loop xs body y g1 = (Inr z, g2)" "store_inv (fold F xs (F x V)) Pol g2"
         "K (fold F xs (F x V))"
      by auto
    show "\<exists>z g'. for_loop (x # xs) body acc g = (Inr z, g')
            \<and> store_inv (fold F (x # xs) V) Pol g' \<and> K (fold F (x # xs) V)"
      using 1 2 by (simp add: bindE_def)
  qed
qed

lemma fold_product:
  "fold f (List.product xs ys) = fold (\<lambda>x. fold (\<lambda>y. f (x, y)) ys) xs"
proof (induction xs)
  case Nil
  show ?case by simp
next
  case (Cons x xs)
  have "fold f (map (Pair x) ys) = fold (\<lambda>y. f (x, y)) ys"
    by (simp add: fold_map comp_def)
  then show ?case using Cons by simp
qed

lemma transforms_evaluation_step:
  assumes vp: "valid_params P" and shP: "table_shape P Pol"
    and i: "0 \<le> i" "i \<le> MAX_CARS P" and j: "0 \<le> j" "j \<le> MAX_CARS P"
  shows "transforms Pol (table_shape P) (evaluation_step P c i j u) (sweep_step P c Pol (i, j))"
  unfolding transforms_def
proof (intro allI impI)
  fix V g assume a: "table_shape P V \<and> store_inv V Pol g"
  then have shV: "table_shape P V" and inv: "store_inv V Pol g" by simp_all
  let ?a = "Pol ! nat i ! nat j"
  let ?r = "expected_return_sum P (i, j) ?a V c"
  have rp: "read_policy i j g = (Inr ?a, g)"
    using np_get_in_range[OF shP i j] inv by (simp add: read_policy_def store_inv_def)
  from computesD[OF computes_expected_return[OF vp shV, of Pol "(i, j)" ?a c] inv]
  obtain g1 where er: "expected_return P (i, j) ?a c g = (Inr ?r, g1)"
    and inv1: "store_inv V Pol g1"
    by (cases "expected_return P (i, j) ?a c g") auto
  have wv: "write_value i j ?r g1 = (Inr (), g1\<lparr>value_array := V[nat i := (V ! nat i)[nat j := ?r]]\<rparr>)"
    using np_set_in_range[OF shV i j] inv1 by (simp add: write_value_def store_inv_def)
  have "evaluation_step P c i j u g
          = (Inr (), g1\<lparr>value_array := sweep_step P c Pol (i, j) V\<rparr>)"
    by (simp add: evaluation_step_def bindE_def rp er wv sweep_step_def)
  moreover have "store_inv (sweep_step P c Pol (i, j) V) Pol
                   (g1\<lparr>value_array := sweep_step P c Pol (i, j) V\<rparr>)"
    using inv1 by (simp add: store_inv_def)
  moreover have "table_shape P (sweep_step P c Pol (i, j) V)"
    unfolding sweep_step_def by (rule table_shape_update[OF shV])
  ultimately show "\<exists>x g'. evaluation_step P c i j u g = (Inr x, g')
        \<and> store_inv (sweep_step P c Pol (i, j) V) Pol g'
        \<and> table_shape P (sweep_step P c Pol (i, j) V)"
    by blast
qed

lemma py_range_bounds: "x \<in> set (py_range (n + 1)) \<Longrightarrow> 0 \<le> x \<and> x \<le> n"
  by (simp add: set_py_range)

lemma transforms_evaluation_sweep:
  assumes vp: "valid_params P" and shP: "table_shape P Pol"
  shows "transforms Pol (table_shape P) (evaluation_sweep P c) (in_place_sweep P c Pol)"
proof -
  have "transforms Pol (table_shape P) (evaluation_sweep P c)
          (fold (\<lambda>i. fold (\<lambda>j. sweep_step P c Pol (i, j)) (py_range (MAX_CARS P + 1)))
             (py_range (MAX_CARS P + 1)))"
    unfolding evaluation_sweep_def
    by (rule transforms_for_loop, rule transforms_for_loop,
        rule transforms_evaluation_step[OF vp shP])
       (simp_all add: py_range_bounds)
  moreover have "in_place_sweep P c Pol
      = fold (\<lambda>i. fold (\<lambda>j. sweep_step P c Pol (i, j)) (py_range (MAX_CARS P + 1)))
          (py_range (MAX_CARS P + 1))"
    by (rule ext) (simp add: in_place_sweep_def row_major_def fold_product)
  ultimately show ?thesis by simp
qed

section \<open>The evaluation loop\<close>

lemma set_map2_nth:
  "set (map2 f xs ys) = {f (xs ! i) (ys ! i) | i. i < min (length xs) (length ys)}"
  by (auto simp: set_zip)

lemma set_abs_differences:
  assumes "table_shape P V" "table_shape P W"
  shows "set (abs_differences V W)
           = {\<bar>V ! i ! j - W ! i ! j\<bar> | i j. i < nat (MAX_CARS P + 1) \<and> j < nat (MAX_CARS P + 1)}"
proof -
  let ?n = "nat (MAX_CARS P + 1)"
  have len: "length V = ?n" "length W = ?n"
    and row: "\<And>i. i < ?n \<Longrightarrow> length (V ! i) = ?n" "\<And>i. i < ?n \<Longrightarrow> length (W ! i) = ?n"
    using assms by (simp_all add: table_shape_def)
  let ?f = "\<lambda>a b :: real. \<bar>a - b\<bar>"
  have rows: "set (map2 (map2 ?f) V W) = {map2 ?f (V ! i) (W ! i) | i. i < ?n}"
    unfolding set_map2_nth len by simp
  have cell: "set (map2 ?f (V ! i) (W ! i)) = {\<bar>V ! i ! j - W ! i ! j\<bar> | j. j < ?n}"
    if "i < ?n" for i
    unfolding set_map2_nth row(1)[OF that] row(2)[OF that] by simp
  show ?thesis
  proof (rule set_eqI)
    fix x
    have "x \<in> set (abs_differences V W)
            \<longleftrightarrow> (\<exists>i<?n. x \<in> set (map2 ?f (V ! i) (W ! i)))"
      unfolding abs_differences_def set_concat rows by blast
    also have "\<dots> \<longleftrightarrow> (\<exists>i<?n. \<exists>j<?n. x = \<bar>V ! i ! j - W ! i ! j\<bar>)"
      using cell by blast
    also have "\<dots> \<longleftrightarrow> x \<in> {\<bar>V ! i ! j - W ! i ! j\<bar> | i j. i < ?n \<and> j < ?n}"
      by blast
    finally show "x \<in> set (abs_differences V W)
            \<longleftrightarrow> x \<in> {\<bar>V ! i ! j - W ! i ! j\<bar> | i j. i < ?n \<and> j < ?n}" .
  qed
qed

lemma max_value_change_maximum:
  assumes "table_shape P V" "table_shape P W" "0 \<le> MAX_CARS P"
  shows "\<exists>d. max_value_change V W = Inr d
           \<and> (\<exists>i j. i < nat (MAX_CARS P + 1) \<and> j < nat (MAX_CARS P + 1)
                  \<and> d = \<bar>V ! i ! j - W ! i ! j\<bar>)
           \<and> (\<forall>i j. i < nat (MAX_CARS P + 1) \<and> j < nat (MAX_CARS P + 1)
                  \<longrightarrow> \<bar>V ! i ! j - W ! i ! j\<bar> \<le> d)"
proof -
  let ?n = "nat (MAX_CARS P + 1)"
  let ?S = "{\<bar>V ! i ! j - W ! i ! j\<bar> | i j. i < ?n \<and> j < ?n}"
  have S: "set (abs_differences V W) = ?S" by (rule set_abs_differences[OF assms(1,2)])
  have "0 < ?n" using assms(3) by simp
  then have "\<bar>V ! 0 ! 0 - W ! 0 ! 0\<bar> \<in> ?S" by blast
  then have "\<bar>V ! 0 ! 0 - W ! 0 ! 0\<bar> \<in> set (abs_differences V W)" unfolding S .
  then have "abs_differences V W \<noteq> []" by auto
  then obtain x xs where xs: "abs_differences V W = x # xs" by (cases "abs_differences V W") auto
  let ?d = "fold max xs x"
  have d: "?d = Max (set (abs_differences V W))"
    unfolding xs by (rule Max.set_eq_fold[symmetric])
  have "?d \<in> set (abs_differences V W)"
    unfolding d by (rule Max_in) (simp_all add: xs)
  then have 1: "\<exists>i j. i < ?n \<and> j < ?n \<and> ?d = \<bar>V ! i ! j - W ! i ! j\<bar>"
    unfolding S by blast
  have 2: "\<bar>V ! i ! j - W ! i ! j\<bar> \<le> ?d" if "i < ?n \<and> j < ?n" for i j
  proof -
    have "\<bar>V ! i ! j - W ! i ! j\<bar> \<in> set (abs_differences V W)"
      unfolding S using that by blast
    then show ?thesis unfolding d by (intro Max_ge) simp_all
  qed
  have "max_value_change V W = Inr ?d" by (simp add: max_value_change_def xs)
  then show ?thesis using 1 2 by blast
qed

lemma store_okD:
  "store_ok P g \<Longrightarrow> table_shape P (value_array g) \<and> table_shape P (policy g)
     \<and> store_inv (value_array g) (policy g) g"
  by (simp add: store_ok_def store_inv_def)

lemma evaluation_sweep_run:
  assumes vp: "valid_params P" and ok: "store_ok P g"
  shows "\<exists>g'. evaluation_sweep P c g = (Inr (), g') \<and> store_ok P g' \<and> policy g' = policy g
           \<and> value_array g' = in_place_sweep P c (policy g) (value_array g)"
proof -
  from store_okD[OF ok] have shV: "table_shape P (value_array g)"
    and shP: "table_shape P (policy g)" and inv: "store_inv (value_array g) (policy g) g"
    by simp_all
  from transformsD[OF transforms_evaluation_sweep[OF vp shP, of c] shV inv]
  obtain x g' where "evaluation_sweep P c g = (Inr x, g')"
    and "store_inv (in_place_sweep P c (policy g) (value_array g)) (policy g) g'"
    and "table_shape P (in_place_sweep P c (policy g) (value_array g))"
    by blast
  then show ?thesis using shP by (auto simp: store_inv_def store_ok_def)
qed

lemma policy_evaluation_unfold:
  assumes vp: "valid_params P" and ok: "store_ok P g"
  shows "\<exists>g'. evaluation_sweep P c g = (Inr (), g') \<and> store_ok P g' \<and> policy g' = policy g
           \<and> value_array g' = in_place_sweep P c (policy g) (value_array g)
           \<and> policy_evaluation P c g
               = (if sweep_converged P c (policy g) (value_array g) then Some (Inr (), g')
                  else policy_evaluation P c g')"
proof -
  from evaluation_sweep_run[OF vp ok, of c] obtain g' where
    g': "evaluation_sweep P c g = (Inr (), g')" "store_ok P g'" "policy g' = policy g"
        "value_array g' = in_place_sweep P c (policy g) (value_array g)"
    by blast
  have M: "0 \<le> MAX_CARS P" using vp by (simp add: valid_params_def)
  from max_value_change_maximum[OF _ _ M, of "value_array g" "value_array g'"]
    store_okD[OF ok] store_okD[OF g'(2)]
  obtain d where d: "max_value_change (value_array g) (value_array g') = Inr d" by blast
  have "policy_evaluation P c g
          = (if d < 1 / 10000 then Some (Inr (), g') else policy_evaluation P c g')"
    by (subst policy_evaluation.simps) (simp add: g'(1) d)
  moreover have "sweep_converged P c (policy g) (value_array g) \<longleftrightarrow> d < 1 / 10000"
    using d g'(4) by (simp add: sweep_converged_def)
  ultimately show ?thesis using g' by auto
qed

lemma sweeps_Suc_shift:
  "sweeps P c Pol (Suc k) V = sweeps P c Pol k (in_place_sweep P c Pol V)"
  by (simp add: sweeps_def funpow_swap1)

lemma policy_evaluation_stops:
  assumes vp: "valid_params P" and ok: "store_ok P g"
    and conv: "sweep_converged P c (policy g) (sweeps P c (policy g) k (value_array g))"
    and before: "\<forall>m<k. \<not> sweep_converged P c (policy g) (sweeps P c (policy g) m (value_array g))"
  shows "\<exists>g'. policy_evaluation P c g = Some (Inr (), g') \<and> store_ok P g'
           \<and> policy g' = policy g
           \<and> value_array g' = sweeps P c (policy g) (Suc k) (value_array g)"
  using ok conv before
proof (induction k arbitrary: g)
  case 0
  from policy_evaluation_unfold[OF vp "0.prems"(1), of c] "0.prems"(2)
  show ?case by (auto simp: sweeps_def)
next
  case (Suc k)
  have nc: "\<not> sweep_converged P c (policy g) (value_array g)"
    using Suc.prems(3) by (auto simp: sweeps_def dest: spec[of _ 0])
  from policy_evaluation_unfold[OF vp Suc.prems(1), of c] nc obtain g1 where
    g1: "store_ok P g1" "policy g1 = policy g"
        "value_array g1 = in_place_sweep P c (policy g) (value_array g)"
        "policy_evaluation P c g = policy_evaluation P c g1"
    by auto
  have c1: "sweep_converged P c (policy g1) (sweeps P c (policy g1) k (value_array g1))"
    using Suc.prems(2) by (simp add: g1 sweeps_Suc_shift)
  have b1: "\<forall>m<k. \<not> sweep_converged P c (policy g1) (sweeps P c (policy g1) m (value_array g1))"
  proof (intro allI impI)
    fix m assume "m < k"
    then have "Suc m < Suc k" by simp
    with Suc.prems(3)
    have "\<not> sweep_converged P c (policy g) (sweeps P c (policy g) (Suc m) (value_array g))"
      by blast
    then show "\<not> sweep_converged P c (policy g1) (sweeps P c (policy g1) m (value_array g1))"
      by (simp add: g1 sweeps_Suc_shift)
  qed
  from Suc.IH[OF g1(1) c1 b1] show ?case
    by (simp add: g1 sweeps_Suc_shift)
qed

lemma policy_evaluation_returns_only_converged:
  assumes run: "policy_evaluation P c g = Some y" and vp: "valid_params P" and ok: "store_ok P g"
  shows "\<exists>k. sweep_converged P c (policy g) (sweeps P c (policy g) k (value_array g))"
proof -
  define Q :: "(params \<times> bool) \<times> store \<Rightarrow> (error + unit) \<times> store \<Rightarrow> bool" where
    "Q = (\<lambda>x y. valid_params (fst (fst x)) \<longrightarrow> store_ok (fst (fst x)) (snd x) \<longrightarrow>
              (\<exists>k. sweep_converged (fst (fst x)) (snd (fst x)) (policy (snd x))
                     (sweeps (fst (fst x)) (snd (fst x)) (policy (snd x)) k (value_array (snd x)))))"
  have "Q ((P, c), g) y"
  proof (rule policy_evaluation.raw_induct[where Pa = Q, OF _ run])
    fix pe P c g y
    assume IH: "\<And>P' c' g' y'. pe P' c' g' = Some y' \<Longrightarrow> Q ((P', c'), g') y'"
      and body: "(let old_value = value_array g
                  in case evaluation_sweep P c g of
                       (Inl e, g') \<Rightarrow> Some (Inl e, g')
                     | (Inr u, g') \<Rightarrow>
                         (case max_value_change old_value (value_array g') of
                            Inl e \<Rightarrow> Some (Inl e, g')
                          | Inr max_change \<Rightarrow>
                              if max_change < 1 / 10000 then Some (Inr (), g')
                              else pe P c g')) = Some y"
    show "Q ((P, c), g) y"
      unfolding Q_def fst_conv snd_conv
    proof (intro impI)
      assume vp: "valid_params P" and ok: "store_ok P g"
      from evaluation_sweep_run[OF vp ok, of c] obtain g1 where
        g1: "evaluation_sweep P c g = (Inr (), g1)" "store_ok P g1" "policy g1 = policy g"
            "value_array g1 = in_place_sweep P c (policy g) (value_array g)"
        by blast
      have M: "0 \<le> MAX_CARS P" using vp by (simp add: valid_params_def)
      from max_value_change_maximum[OF _ _ M, of "value_array g" "value_array g1"]
        store_okD[OF ok] store_okD[OF g1(2)]
      obtain d where d: "max_value_change (value_array g) (value_array g1) = Inr d" by blast
      show "\<exists>k. sweep_converged P c (policy g) (sweeps P c (policy g) k (value_array g))"
      proof (cases "d < 1 / 10000")
        case True
        then have "sweep_converged P c (policy g) (sweeps P c (policy g) 0 (value_array g))"
          using d g1(4) by (simp add: sweep_converged_def sweeps_def)
        then show ?thesis by blast
      next
        case False
        then have "pe P c g1 = Some y" using body by (simp add: g1(1) d)
        from IH[OF this] vp g1(2) obtain k where
          "sweep_converged P c (policy g1) (sweeps P c (policy g1) k (value_array g1))"
          by (auto simp: Q_def)
        then have "sweep_converged P c (policy g) (sweeps P c (policy g) (Suc k) (value_array g))"
          by (simp add: g1 sweeps_Suc_shift)
        then show ?thesis by blast
      qed
    qed
  qed
  then show ?thesis using vp ok by (simp add: Q_def)
qed

lemma table_shape_fold_sweep_step:
  "table_shape P V \<Longrightarrow> table_shape P (fold (sweep_step P c Pol) xs V)"
proof (induction xs arbitrary: V)
  case Nil
  then show ?case by simp
next
  case (Cons x xs)
  have "table_shape P (sweep_step P c Pol x V)"
    unfolding sweep_step_def by (rule table_shape_update[OF Cons.prems])
  then show ?case using Cons.IH by simp
qed

lemma table_shape_sweeps: "table_shape P V \<Longrightarrow> table_shape P (sweeps P c Pol k V)"
  by (induction k) (simp_all add: sweeps_def in_place_sweep_def table_shape_fold_sweep_step)

lemma sweep_converged_iff:
  assumes "table_shape P V" "0 \<le> MAX_CARS P"
  shows "sweep_converged P c Pol V \<longleftrightarrow>
           (\<forall>i j. i < nat (MAX_CARS P + 1) \<and> j < nat (MAX_CARS P + 1) \<longrightarrow>
              \<bar>V ! i ! j - in_place_sweep P c Pol V ! i ! j\<bar> < 1 / 10000)"
proof -
  let ?W = "in_place_sweep P c Pol V"
  have shW: "table_shape P ?W"
    unfolding in_place_sweep_def by (rule table_shape_fold_sweep_step[OF assms(1)])
  from max_value_change_maximum[OF assms(1) shW assms(2)] obtain d where
    d: "max_value_change V ?W = Inr d"
    and att: "\<exists>i j. i < nat (MAX_CARS P + 1) \<and> j < nat (MAX_CARS P + 1)
                  \<and> d = \<bar>V ! i ! j - ?W ! i ! j\<bar>"
    and ub: "\<forall>i j. i < nat (MAX_CARS P + 1) \<and> j < nat (MAX_CARS P + 1)
                  \<longrightarrow> \<bar>V ! i ! j - ?W ! i ! j\<bar> \<le> d"
    by blast
  have "sweep_converged P c Pol V \<longleftrightarrow> d < 1 / 10000"
    by (simp add: sweep_converged_def d)
  also have "\<dots> \<longleftrightarrow> (\<forall>i j. i < nat (MAX_CARS P + 1) \<and> j < nat (MAX_CARS P + 1) \<longrightarrow>
              \<bar>V ! i ! j - ?W ! i ! j\<bar> < 1 / 10000)"
  proof
    assume "d < 1 / 10000"
    then show "\<forall>i j. i < nat (MAX_CARS P + 1) \<and> j < nat (MAX_CARS P + 1) \<longrightarrow>
              \<bar>V ! i ! j - ?W ! i ! j\<bar> < 1 / 10000"
      using ub by (meson le_less_trans)
  next
    assume "\<forall>i j. i < nat (MAX_CARS P + 1) \<and> j < nat (MAX_CARS P + 1) \<longrightarrow>
              \<bar>V ! i ! j - ?W ! i ! j\<bar> < 1 / 10000"
    then show "d < 1 / 10000" using att by blast
  qed
  finally show ?thesis .
qed

section \<open>The improvement sweep\<close>

lemma succeeds_for_loop:
  assumes "\<And>x acc. x \<in> set xs \<Longrightarrow> succeeds I (body x acc)"
  shows "succeeds I (for_loop xs body acc)"
  using assms
proof (induction xs arbitrary: acc)
  case Nil
  show ?case by (simp add: succeeds_def return_def)
next
  case (Cons x xs)
  show ?case
    unfolding succeeds_def
  proof (intro allI impI)
    fix g assume "I g"
    have "succeeds I (body x acc)" by (rule Cons.prems) simp
    with \<open>I g\<close> obtain y g1 where 1: "body x acc g = (Inr y, g1)" "I g1"
      by (cases "body x acc g") (auto simp: succeeds_def)
    have "succeeds I (for_loop xs body y)" by (rule Cons.IH) (simp add: Cons.prems)
    with 1(2) have "(\<exists>z. fst (for_loop xs body y g1) = Inr z) \<and> I (snd (for_loop xs body y g1))"
      by (simp add: succeeds_def)
    then show "(\<exists>z. fst (for_loop (x # xs) body acc g) = Inr z)
                \<and> I (snd (for_loop (x # xs) body acc g))"
      using 1(1) by (simp add: bindE_def)
  qed
qed

lemma policy_feasible_update:
  assumes pf: "policy_feasible P Pol" and sh: "table_shape P Pol"
    and i: "0 \<le> i" "i \<le> MAX_CARS P" and j: "0 \<le> j" "j \<le> MAX_CARS P"
    and a: "feasible i j a" "- MAX_MOVE_OF_CARS P \<le> a" "a \<le> MAX_MOVE_OF_CARS P"
  shows "policy_feasible P (Pol[nat i := (Pol ! nat i)[nat j := a]])"
  unfolding policy_feasible_def
proof (intro allI impI)
  fix i' j' assume r: "0 \<le> i' \<and> i' \<le> MAX_CARS P \<and> 0 \<le> j' \<and> j' \<le> MAX_CARS P"
  let ?Pol' = "Pol[nat i := (Pol ! nat i)[nat j := a]]"
  have li: "nat i < length Pol" "nat i' < length Pol"
    using sh i r by (simp_all add: table_shape_def)
  then have lj: "nat j < length (Pol ! nat i)" "nat j' < length (Pol ! nat i)"
    using sh j r by (simp_all add: table_shape_def)
  have "?Pol' ! nat i' ! nat j' = (if i' = i \<and> j' = j then a else Pol ! nat i' ! nat j')"
    using li lj i j r by (auto simp: nth_list_update)
  then show "feasible i' j' (?Pol' ! nat i' ! nat j')
        \<and> - MAX_MOVE_OF_CARS P \<le> ?Pol' ! nat i' ! nat j'
        \<and> ?Pol' ! nat i' ! nat j' \<le> MAX_MOVE_OF_CARS P"
    using pf r a by (auto simp: policy_feasible_def)
qed

lemma succeeds_improve_state:
  assumes vp: "valid_params P" and mv: "0 \<le> MAX_MOVE_OF_CARS P"
    and i: "0 \<le> i" "i \<le> MAX_CARS P" and j: "0 \<le> j" "j \<le> MAX_CARS P"
  shows "succeeds (\<lambda>g. store_ok P g \<and> policy_feasible P (policy g) \<and> value_array g = V)
           (improve_state P c i j st)"
  unfolding succeeds_def
proof (intro allI impI)
  fix g assume a: "store_ok P g \<and> policy_feasible P (policy g) \<and> value_array g = V"
  then have ok: "store_ok P g" and pf: "policy_feasible P (policy g)" by simp_all
  let ?a = "greedy_action P c (value_array g) i j"
  from improve_state_run[OF vp ok i j mv, of c st] obtain g1 where
    g1: "cache_consistent (poisson_cache g1)" "value_array g1 = value_array g"
    and im: "improve_state P c i j st g
               = (Inr (if st \<and> policy g ! nat i ! nat j \<noteq> ?a then False else st),
                  g1\<lparr>policy := (policy g)[nat i := (policy g ! nat i)[nat j := ?a]]\<rparr>)"
    by blast
  have sh: "table_shape P (policy g)" "table_shape P (value_array g)"
    using store_okD[OF ok] by simp_all
  have fa: "feasible i j ?a" "- MAX_MOVE_OF_CARS P \<le> ?a" "?a \<le> MAX_MOVE_OF_CARS P"
    using greedy_action_feasible[OF mv i(1), of j c "value_array g"] by (simp_all add: set_actions)
  have "policy_feasible P ((policy g)[nat i := (policy g ! nat i)[nat j := ?a]])"
    by (rule policy_feasible_update[OF pf sh(1) i j fa])
  then show "(\<exists>x. fst (improve_state P c i j st g) = Inr x)
        \<and> (store_ok P (snd (improve_state P c i j st g))
           \<and> policy_feasible P (policy (snd (improve_state P c i j st g)))
           \<and> value_array (snd (improve_state P c i j st g)) = V)"
    using g1 sh table_shape_update[OF sh(1)] a by (simp add: im store_ok_def)
qed

lemma policy_improvement_run:
  assumes "valid_params P" "0 \<le> MAX_MOVE_OF_CARS P"
    and "store_ok P g" "policy_feasible P (policy g)"
  shows "(\<exists>stable. fst (policy_improvement P c g) = Inr stable)
         \<and> store_ok P (snd (policy_improvement P c g))
         \<and> policy_feasible P (policy (snd (policy_improvement P c g)))
         \<and> value_array (snd (policy_improvement P c g)) = value_array g"
proof -
  have "succeeds (\<lambda>h. store_ok P h \<and> policy_feasible P (policy h) \<and> value_array h = value_array g)
          (policy_improvement P c)"
    unfolding policy_improvement_def
    by (rule succeeds_for_loop, rule succeeds_for_loop,
        rule succeeds_improve_state[OF assms(1,2)])
       (simp_all add: py_range_bounds)
  then show ?thesis using assms(3,4) by (simp add: succeeds_def)
qed

lemma policy_feasible_initial:
  assumes "0 \<le> MAX_MOVE_OF_CARS P"
  shows "policy_feasible P (policy (initial_store P))"
  using assms by (auto simp: policy_feasible_def initial_store_def feasible_def)

section \<open>The entries of the table during a sweep\<close>

lemma distinct_row_major: "distinct (row_major P)"
  unfolding row_major_def by (intro distinct_product distinct_py_range)

lemma row_major_bounds:
  "s \<in> set (row_major P) \<Longrightarrow>
     0 \<le> fst s \<and> fst s \<le> MAX_CARS P \<and> 0 \<le> snd s \<and> snd s \<le> MAX_CARS P"
  by (auto simp: row_major_def set_py_range)

lemma sweep_step_entry_same:
  assumes "table_shape P V" "s \<in> set (row_major P)"
  shows "table_entry (sweep_step P c Pol s V) s
           = expected_return_sum P s (table_entry Pol s) V c"
proof -
  from row_major_bounds[OF assms(2)] have i: "nat (fst s) < length V"
    using assms(1) by (simp add: table_shape_def)
  then have "nat (snd s) < length (V ! nat (fst s))"
    using assms(1) row_major_bounds[OF assms(2)] by (simp add: table_shape_def)
  then show ?thesis using i by (simp add: table_entry_def sweep_step_def)
qed

lemma sweep_step_entry_other:
  assumes "table_shape P V" "s \<in> set (row_major P)" "t \<in> set (row_major P)" "s \<noteq> t"
  shows "table_entry (sweep_step P c Pol s V) t = table_entry V t"
proof (cases "fst s = fst t")
  case True
  then have "snd s \<noteq> snd t" using assms(4) by (simp add: prod_eq_iff)
  then have ne: "nat (snd s) \<noteq> nat (snd t)"
    using row_major_bounds[OF assms(2)] row_major_bounds[OF assms(3)]
    by (simp add: eq_nat_nat_iff)
  have "nat (fst t) < length V"
    using assms(1) row_major_bounds[OF assms(3)] by (simp add: table_shape_def)
  then show ?thesis using True ne by (simp add: table_entry_def sweep_step_def)
next
  case False
  then have "nat (fst s) \<noteq> nat (fst t)"
    using row_major_bounds[OF assms(2)] row_major_bounds[OF assms(3)]
    by (simp add: eq_nat_nat_iff)
  then show ?thesis by (simp add: table_entry_def sweep_step_def)
qed

lemma fold_sweep_step_entry_other:
  assumes "table_shape P V" "set xs \<subseteq> set (row_major P)" "t \<in> set (row_major P)"
    and "t \<notin> set xs"
  shows "table_entry (fold (sweep_step P c Pol) xs V) t = table_entry V t"
  using assms
proof (induction xs arbitrary: V)
  case Nil
  show ?case by simp
next
  case (Cons x xs)
  have sh: "table_shape P (sweep_step P c Pol x V)"
    unfolding sweep_step_def by (rule table_shape_update[OF Cons.prems(1)])
  have "table_entry (fold (sweep_step P c Pol) xs (sweep_step P c Pol x V)) t
          = table_entry (sweep_step P c Pol x V) t"
    using Cons.prems by (intro Cons.IH[OF sh]) auto
  also have "\<dots> = table_entry V t"
    using Cons.prems by (intro sweep_step_entry_other) auto
  finally show ?case by simp
qed

lemma in_place_sweep_split:
  assumes "p < length (row_major P)"
  shows "in_place_sweep P c Pol V
           = fold (sweep_step P c Pol) (drop (Suc p) (row_major P))
               (sweep_step P c Pol (row_major P ! p) (partly_swept P c Pol p V))"
proof -
  have "row_major P = take p (row_major P) @ row_major P ! p # drop (Suc p) (row_major P)"
    using assms by (simp add: id_take_nth_drop)
  then have "fold (sweep_step P c Pol) (row_major P) V
      = fold (sweep_step P c Pol) (take p (row_major P) @ row_major P ! p # drop (Suc p) (row_major P)) V"
    by simp
  then show ?thesis by (simp add: in_place_sweep_def partly_swept_def)
qed

lemma table_shape_partly_swept:
  "table_shape P V \<Longrightarrow> table_shape P (partly_swept P c Pol p V)"
  unfolding partly_swept_def by (rule table_shape_fold_sweep_step)

lemma in_place_sweep_entry:
  assumes sh: "table_shape P V" and p: "p < length (row_major P)"
  shows "table_entry (in_place_sweep P c Pol V) (row_major P ! p)
           = expected_return_sum P (row_major P ! p) (table_entry Pol (row_major P ! p))
               (partly_swept P c Pol p V) c"
proof -
  let ?s = "row_major P ! p"
  let ?Vp = "partly_swept P c Pol p V"
  have s: "?s \<in> set (row_major P)" using p by simp
  have shp: "table_shape P ?Vp" by (rule table_shape_partly_swept[OF sh])
  have sh1: "table_shape P (sweep_step P c Pol ?s ?Vp)"
    unfolding sweep_step_def by (rule table_shape_update[OF shp])
  have notin: "?s \<notin> set (drop (Suc p) (row_major P))"
  proof
    assume "?s \<in> set (drop (Suc p) (row_major P))"
    then obtain q where q: "q < length (row_major P) - Suc p"
      and eq: "drop (Suc p) (row_major P) ! q = ?s"
      by (auto simp: in_set_conv_nth)
    then have "row_major P ! (Suc p + q) = row_major P ! p" by simp
    moreover have "Suc p + q < length (row_major P)" using q by simp
    ultimately have "Suc p + q = p"
      using distinct_row_major[of P] p by (simp add: nth_eq_iff_index_eq)
    then show False by simp
  qed
  have "table_entry (in_place_sweep P c Pol V) ?s
          = table_entry (sweep_step P c Pol ?s ?Vp) ?s"
    unfolding in_place_sweep_split[OF p]
    by (rule fold_sweep_step_entry_other[OF sh1 _ s notin]) (rule set_drop_subset)
  also have "\<dots> = expected_return_sum P ?s (table_entry Pol ?s) ?Vp c"
    by (rule sweep_step_entry_same[OF shp s])
  finally show ?thesis .
qed

lemma partly_swept_entry:
  assumes sh: "table_shape P V" and q: "q < length (row_major P)"
  shows "table_entry (partly_swept P c Pol p V) (row_major P ! q)
           = (if q < p then table_entry (in_place_sweep P c Pol V) (row_major P ! q)
              else table_entry V (row_major P ! q))"
proof (cases "q < p")
  case False
  let ?t = "row_major P ! q"
  have t: "?t \<in> set (row_major P)" using q by simp
  have "?t \<notin> set (take p (row_major P))"
  proof
    assume "?t \<in> set (take p (row_major P))"
    then obtain r where r: "r < p" "r < length (row_major P)" and eq: "row_major P ! r = ?t"
      by (auto simp: in_set_conv_nth)
    then have "r = q" using distinct_row_major[of P] q by (simp add: nth_eq_iff_index_eq)
    then show False using r False by simp
  qed
  then have "table_entry (partly_swept P c Pol p V) ?t = table_entry V ?t"
    unfolding partly_swept_def
    by (intro fold_sweep_step_entry_other[OF sh _ t]) (rule set_take_subset)
  then show ?thesis using False by simp
next
  case True
  let ?t = "row_major P ! q"
  let ?R = "row_major P"
  let ?V1 = "sweep_step P c Pol ?t (partly_swept P c Pol q V)"
  have t: "?t \<in> set ?R" using q by simp
  have sh1: "table_shape P ?V1"
    unfolding sweep_step_def by (rule table_shape_update[OF table_shape_partly_swept[OF sh]])
  have notin: "?t \<notin> set xs" if "\<exists>k. xs = drop (Suc q) (take k ?R)" for xs
  proof
    assume a: "?t \<in> set xs"
    from that obtain k where xs: "xs = drop (Suc q) (take k ?R)" by blast
    from a obtain r where r: "r < length xs" and eq: "xs ! r = ?t"
      by (auto simp: in_set_conv_nth)
    have b: "Suc q + r < length ?R" "Suc q + r < k" using r xs by simp_all
    have "xs ! r = take k ?R ! (Suc q + r)"
      unfolding xs using b by (intro nth_drop) simp
    also have "\<dots> = ?R ! (Suc q + r)" using b by simp
    finally have "?R ! (Suc q + r) = ?t" using eq by simp
    moreover note b(1)
    ultimately have "Suc q + r = q"
      using distinct_row_major[of P] q by (simp add: nth_eq_iff_index_eq)
    then show False by simp
  qed
  have sub: "set (drop (Suc q) (take k ?R)) \<subseteq> set ?R" for k
    by (meson set_drop_subset set_take_subset subset_trans)
  have tk: "take p ?R = take q ?R @ ?t # drop (Suc q) (take p ?R)"
  proof -
    have "q < length (take p ?R)" using True q by simp
    from id_take_nth_drop[OF this] show ?thesis using True by (simp add: min_def)
  qed
  have "partly_swept P c Pol p V = fold (sweep_step P c Pol) (drop (Suc q) (take p ?R)) ?V1"
    unfolding partly_swept_def by (subst tk) simp
  then have 1: "table_entry (partly_swept P c Pol p V) ?t = table_entry ?V1 ?t"
    using fold_sweep_step_entry_other[OF sh1 sub t notin, of p c Pol] by auto
  have 2: "table_entry (in_place_sweep P c Pol V) ?t = table_entry ?V1 ?t"
    using in_place_sweep_entry[OF sh q, of c Pol]
      sweep_step_entry_same[OF table_shape_partly_swept[OF sh, of c Pol q] t, of c Pol]
    by simp
  show ?thesis using 1 2 True by simp
qed

section \<open>Indices outside the table\<close>








section \<open>The claims\<close>

text \<open>
  Claim C1. For a state \<open>(n1, n2)\<close> with both counts in \<open>[0, MAX_CARS]\<close> and a feasible
  action, \<open>expected_return\<close> raises nothing and returns the sum of the specification:
  minus the move cost times \<open>\<bar>a\<bar>\<close>, plus, over all request pairs below the truncation
  bound, the joint Poisson probability times reward plus discounted next value; with
  \<open>simplify_returns\<close> false, summed further over all return pairs. The table has the
  shape \<open>(MAX_CARS + 1, MAX_CARS + 1)\<close>, the rates are below ten and the cache holds only
  what \<open>poisson_probability\<close> stored.
\<close>

theorem expected_return_closed_form:
  assumes "valid_params P" "table_shape P (value_array g)" "cache_consistent (poisson_cache g)"
    and "0 \<le> n1" "n1 \<le> MAX_CARS P" "0 \<le> n2" "n2 \<le> MAX_CARS P" "feasible n1 n2 a"
  shows "fst (expected_return P (n1, n2) a simplify_returns g)
           = Inr (expected_return_sum P (n1, n2) a (value_array g) simplify_returns)"
proof -
  have "store_inv (value_array g) (policy g) g"
    using assms(3) by (simp add: store_inv_def)
  with computes_expected_return[OF assms(1,2)] show ?thesis
    by (simp add: computes_def)
qed

theorem expected_return_closed_form_witness:
  "valid_params notebook_params
   \<and> table_shape notebook_params (value_array (initial_store notebook_params))
   \<and> cache_consistent (poisson_cache (initial_store notebook_params))
   \<and> (0::int) \<le> 3 \<and> 3 \<le> MAX_CARS notebook_params \<and> (0::int) \<le> 1 \<and> 1 \<le> MAX_CARS notebook_params
   \<and> feasible 3 1 2
   \<and> fst (expected_return notebook_params (3, 1) 2 False (initial_store notebook_params))
       = Inr (expected_return_sum notebook_params (3, 1) 2
                (value_array (initial_store notebook_params)) False)"
proof -
  have a: "valid_params notebook_params" by (rule valid_notebook_params)
  have b: "table_shape notebook_params (value_array (initial_store notebook_params))"
    and c: "cache_consistent (poisson_cache (initial_store notebook_params))"
    using initial_store_ok[of notebook_params] by simp_all
  have d: "(3::int) \<le> MAX_CARS notebook_params" "(1::int) \<le> MAX_CARS notebook_params"
    by (simp_all add: notebook_params_def)
  have e: "feasible 3 1 2" by (simp add: feasible_def)
  show ?thesis
    using expected_return_closed_form[OF a b c _ d(1) _ d(2) e, of False] a b c d e by simp
qed

text \<open>
  Claim C2. A sweep of the evaluation phase raises nothing and leaves the table that
  results from taking the states in row-major order and overwriting, for each, its entry
  in the table as it then stands with the expected return of the policy's action, so a
  later state reads what the earlier states of the same sweep wrote: the new entry of
  the state at position \<open>p\<close> of that order is the expected return over the table that
  holds the new entries of the states before \<open>p\<close> and the old entries of the others.
  The phase returns exactly when some sweep changes no entry by \<open>1e-4\<close> or more,
  measured against the table before that sweep, and then it returns after the first
  such sweep, with the table that sweep left.
\<close>

theorem policy_evaluation_in_place_until_converged:
  assumes "valid_params P" "store_ok P g"
  shows "(\<exists>g1. evaluation_sweep P c g = (Inr (), g1) \<and> policy g1 = policy g
            \<and> value_array g1 = fold (sweep_step P c (policy g)) (row_major P) (value_array g))
         \<and> (\<forall>p<length (row_major P).
                table_entry (fold (sweep_step P c (policy g)) (row_major P) (value_array g))
                    (row_major P ! p)
                  = expected_return_sum P (row_major P ! p)
                      (table_entry (policy g) (row_major P ! p))
                      (partly_swept P c (policy g) p (value_array g)) c
                \<and> (\<forall>q<length (row_major P).
                       table_entry (partly_swept P c (policy g) p (value_array g))
                           (row_major P ! q)
                         = (if q < p
                            then table_entry
                                   (fold (sweep_step P c (policy g)) (row_major P) (value_array g))
                                   (row_major P ! q)
                            else table_entry (value_array g) (row_major P ! q))))
         \<and> ((\<exists>y. policy_evaluation P c g = Some y) \<longleftrightarrow>
              (\<exists>k. sweep_converged P c (policy g) (sweeps P c (policy g) k (value_array g))))
         \<and> (\<forall>k. sweep_converged P c (policy g) (sweeps P c (policy g) k (value_array g))
                \<and> (\<forall>m<k. \<not> sweep_converged P c (policy g)
                               (sweeps P c (policy g) m (value_array g)))
                \<longrightarrow> (\<exists>g'. policy_evaluation P c g = Some (Inr (), g') \<and> policy g' = policy g
                          \<and> value_array g' = sweeps P c (policy g) (Suc k) (value_array g)))
         \<and> (\<forall>k. sweep_converged P c (policy g) (sweeps P c (policy g) k (value_array g)) \<longleftrightarrow>
                (\<forall>i j. i < nat (MAX_CARS P + 1) \<and> j < nat (MAX_CARS P + 1) \<longrightarrow>
                   \<bar>sweeps P c (policy g) k (value_array g) ! i ! j
                     - sweeps P c (policy g) (Suc k) (value_array g) ! i ! j\<bar> < 1 / 10000))"
proof -
  let ?conv = "\<lambda>k. sweep_converged P c (policy g) (sweeps P c (policy g) k (value_array g))"
  have M: "0 \<le> MAX_CARS P" using assms(1) by (simp add: valid_params_def)
  have shV: "table_shape P (value_array g)" using store_okD[OF assms(2)] by simp
  have 1: "\<exists>g1. evaluation_sweep P c g = (Inr (), g1) \<and> policy g1 = policy g
            \<and> value_array g1 = fold (sweep_step P c (policy g)) (row_major P) (value_array g)"
    using evaluation_sweep_run[OF assms, of c] by (auto simp: in_place_sweep_def)
  have 3: "\<exists>g'. policy_evaluation P c g = Some (Inr (), g') \<and> policy g' = policy g
              \<and> value_array g' = sweeps P c (policy g) (Suc k) (value_array g)"
    if "?conv k \<and> (\<forall>m<k. \<not> ?conv m)" for k
    using policy_evaluation_stops[OF assms, of c k] that by blast
  have 2: "(\<exists>y. policy_evaluation P c g = Some y) \<longleftrightarrow> (\<exists>k. ?conv k)"
  proof
    assume "\<exists>y. policy_evaluation P c g = Some y"
    then show "\<exists>k. ?conv k"
      using policy_evaluation_returns_only_converged[OF _ assms] by blast
  next
    assume "\<exists>k. ?conv k"
    then obtain k where "?conv k \<and> (\<forall>m<k. \<not> ?conv m)"
      using exists_least_iff[of ?conv] by blast
    from 3[OF this] show "\<exists>y. policy_evaluation P c g = Some y" by blast
  qed
  have 4: "?conv k \<longleftrightarrow>
             (\<forall>i j. i < nat (MAX_CARS P + 1) \<and> j < nat (MAX_CARS P + 1) \<longrightarrow>
                \<bar>sweeps P c (policy g) k (value_array g) ! i ! j
                  - sweeps P c (policy g) (Suc k) (value_array g) ! i ! j\<bar> < 1 / 10000)" for k
    using sweep_converged_iff[OF table_shape_sweeps[OF shV] M, of c "policy g" c "policy g" k]
    by (simp add: sweeps_def)
  have 5: "table_entry (fold (sweep_step P c (policy g)) (row_major P) (value_array g))
                    (row_major P ! p)
                  = expected_return_sum P (row_major P ! p)
                      (table_entry (policy g) (row_major P ! p))
                      (partly_swept P c (policy g) p (value_array g)) c
                \<and> (\<forall>q<length (row_major P).
                       table_entry (partly_swept P c (policy g) p (value_array g))
                           (row_major P ! q)
                         = (if q < p
                            then table_entry
                                   (fold (sweep_step P c (policy g)) (row_major P) (value_array g))
                                   (row_major P ! q)
                            else table_entry (value_array g) (row_major P ! q)))"
    if "p < length (row_major P)" for p
    using in_place_sweep_entry[OF shV that, of c "policy g"]
      partly_swept_entry[OF shV, of _ c "policy g" p]
    by (simp add: in_place_sweep_def)
  show ?thesis
    apply (intro conjI)
        apply (rule 1)
       apply (use 5 in blast)
      apply (rule 2)
     apply (use 3 in blast)
    apply (use 4 in blast)
    done
qed

theorem policy_evaluation_in_place_until_converged_witness:
  "valid_params notebook_params \<and> store_ok notebook_params (initial_store notebook_params)
   \<and> (\<exists>g1. evaluation_sweep notebook_params True (initial_store notebook_params) = (Inr (), g1)
          \<and> policy g1 = policy (initial_store notebook_params)
          \<and> value_array g1
              = fold (sweep_step notebook_params True (policy (initial_store notebook_params)))
                  (row_major notebook_params) (value_array (initial_store notebook_params)))
   \<and> ((\<exists>y. policy_evaluation notebook_params True (initial_store notebook_params) = Some y) \<longleftrightarrow>
        (\<exists>k. sweep_converged notebook_params True (policy (initial_store notebook_params))
               (sweeps notebook_params True (policy (initial_store notebook_params)) k
                  (value_array (initial_store notebook_params)))))"
proof -
  note h = valid_notebook_params initial_store_store_ok[of notebook_params]
  show ?thesis
    using policy_evaluation_in_place_until_converged[OF h, of True] h by simp
qed

text \<open>
  Claim C3. In the improvement of a state \<open>(i, j)\<close>, the entry of \<open>action_returns\<close> for
  an action is negative infinity exactly when the action fails the test
  \<open>0 \<le> a \<le> i \<or> - j \<le> a \<le> 0\<close>; the action written to the policy passes the test; and
  at state \<open>(0, 0)\<close> the only action that passes is \<open>0\<close>.
\<close>

theorem improvement_marks_infeasible_actions:
  assumes "valid_params P" "store_ok P g"
    and "0 \<le> i" "i \<le> MAX_CARS P" "0 \<le> j" "j \<le> MAX_CARS P"
    and "0 \<le> MAX_MOVE_OF_CARS P"
  shows "\<exists>rs a. fst (action_returns P c i j g) = Inr rs \<and> length rs = length (actions P)
           \<and> (\<forall>k<length (actions P). (rs ! k = NegInf) = (\<not> feasible i j (actions P ! k)))
           \<and> np_get (policy (snd (improve_state P c i j st g))) i j = Inr a
           \<and> feasible i j a
           \<and> (\<forall>b. feasible 0 0 b = (b = 0))
           \<and> (\<forall>b. feasible i j b = ((0 \<le> b \<and> b \<le> i) \<or> (- j \<le> b \<and> b \<le> 0)))"
proof -
  let ?V = "value_array g"
  let ?rs = "map (action_score P c ?V i j) (actions P)"
  let ?a = "greedy_action P c ?V i j"
  from improve_state_run[OF assms, of c st] obtain g1 where
    ar: "action_returns P c i j g = (Inr ?rs, g1)"
    and im: "improve_state P c i j st g
               = (Inr (if st \<and> policy g ! nat i ! nat j \<noteq> ?a then False else st),
                  g1\<lparr>policy := (policy g)[nat i := (policy g ! nat i)[nat j := ?a]]\<rparr>)"
    by blast
  have shP: "table_shape P (policy g)" using assms(2) by (simp add: store_ok_def)
  have 1: "fst (action_returns P c i j g) = Inr ?rs" using ar by simp
  have 2: "length ?rs = length (actions P)" by simp
  have 3: "\<forall>k<length (actions P). (?rs ! k = NegInf) = (\<not> feasible i j (actions P ! k))"
    by (simp add: action_score_def)
  have 4: "np_get (policy (snd (improve_state P c i j st g))) i j = Inr ?a"
    using np_get_after_update[OF shP assms(3-6)] by (simp add: im)
  have 5: "feasible i j ?a" using greedy_action_feasible[OF assms(7,3)] by simp
  show ?thesis
    using 1 2 3 4 5 feasible_no_cars by (intro exI[of _ ?rs] exI[of _ ?a]) (simp add: feasible_def)
qed

theorem improvement_marks_infeasible_actions_witness:
  "valid_params notebook_params \<and> store_ok notebook_params (initial_store notebook_params)
   \<and> (0::int) \<le> 3 \<and> 3 \<le> MAX_CARS notebook_params \<and> (0::int) \<le> 1 \<and> 1 \<le> MAX_CARS notebook_params
   \<and> 0 \<le> MAX_MOVE_OF_CARS notebook_params
   \<and> (\<exists>rs a. fst (action_returns notebook_params True 3 1 (initial_store notebook_params)) = Inr rs
          \<and> length rs = length (actions notebook_params)
          \<and> np_get (policy (snd (improve_state notebook_params True 3 1 True
                                    (initial_store notebook_params)))) 3 1 = Inr a
          \<and> feasible 3 1 a)"
proof -
  note h = valid_notebook_params initial_store_store_ok[of notebook_params] notebook_bounds
  from improvement_marks_infeasible_actions[OF h, of True True]
  have "\<exists>rs a. fst (action_returns notebook_params True 3 1 (initial_store notebook_params)) = Inr rs
          \<and> length rs = length (actions notebook_params)
          \<and> np_get (policy (snd (improve_state notebook_params True 3 1 True
                                    (initial_store notebook_params)))) 3 1 = Inr a
          \<and> feasible 3 1 a"
    by blast
  then show ?thesis using h by simp
qed

text \<open>
  Claim C4. The action the improvement of a state writes to the policy is one of the
  candidate actions, listed from \<open>- MAX_MOVE_OF_CARS\<close> up to \<open>MAX_MOVE_OF_CARS\<close>; no
  candidate has a larger return, and every candidate before it in that order (every
  smaller action) has a strictly smaller return: the first maximum in enumeration
  order.
\<close>

theorem improvement_selects_first_maximum:
  assumes "valid_params P" "store_ok P g"
    and "0 \<le> i" "i \<le> MAX_CARS P" "0 \<le> j" "j \<le> MAX_CARS P"
    and "0 \<le> MAX_MOVE_OF_CARS P"
  shows "\<exists>a. np_get (policy (snd (improve_state P c i j st g))) i j = Inr a
           \<and> a \<in> set (actions P)
           \<and> fst (action_returns P c i j g)
               = Inr (map (action_score P c (value_array g) i j)
                        [- MAX_MOVE_OF_CARS P .. MAX_MOVE_OF_CARS P])
           \<and> (\<forall>b\<in>set (actions P). \<not> score_less (action_score P c (value_array g) i j a)
                                        (action_score P c (value_array g) i j b))
           \<and> (\<forall>b\<in>set (actions P). b < a \<longrightarrow>
                 score_less (action_score P c (value_array g) i j b)
                            (action_score P c (value_array g) i j a))"
proof -
  let ?V = "value_array g"
  let ?rs = "map (action_score P c ?V i j) (actions P)"
  let ?a = "greedy_action P c ?V i j"
  from improve_state_run[OF assms, of c st] obtain g1 where
    ar: "action_returns P c i j g = (Inr ?rs, g1)"
    and im: "improve_state P c i j st g
               = (Inr (if st \<and> policy g ! nat i ! nat j \<noteq> ?a then False else st),
                  g1\<lparr>policy := (policy g)[nat i := (policy g ! nat i)[nat j := ?a]]\<rparr>)"
    by blast
  have shP: "table_shape P (policy g)" using assms(2) by (simp add: store_ok_def)
  from greedy_action_index[OF assms(7), of c ?V i j] obtain k where
    k: "k < length (actions P)" "?a = actions P ! k"
    and mx: "\<forall>n<length (actions P). \<not> score_less (action_score P c ?V i j (actions P ! k))
                                         (action_score P c ?V i j (actions P ! n))"
    and fs: "\<forall>n<k. score_less (action_score P c ?V i j (actions P ! n))
                             (action_score P c ?V i j (actions P ! k))"
    by blast
  have 1: "np_get (policy (snd (improve_state P c i j st g))) i j = Inr ?a"
    using np_get_after_update[OF shP assms(3-6)] by (simp add: im)
  have 2: "?a \<in> set (actions P)" using k by simp
  have 3: "fst (action_returns P c i j g)
             = Inr (map (action_score P c ?V i j) [- MAX_MOVE_OF_CARS P .. MAX_MOVE_OF_CARS P])"
    using ar by (simp add: actions_def)
  have 4: "\<not> score_less (action_score P c ?V i j ?a) (action_score P c ?V i j b)"
    if "b \<in> set (actions P)" for b
  proof -
    from that obtain n where "n < length (actions P)" "b = actions P ! n"
      by (auto simp: in_set_conv_nth)
    then show ?thesis using mx k(2) by simp
  qed
  have 5: "score_less (action_score P c ?V i j b) (action_score P c ?V i j ?a)"
    if "b \<in> set (actions P)" "b < ?a" for b
  proof -
    from that(1) obtain n where n: "n < length (actions P)" "b = actions P ! n"
      by (auto simp: in_set_conv_nth)
    then have "n < k" using that(2) k by (simp add: nth_actions)
    then show ?thesis using fs k(2) n(2) by simp
  qed
  show ?thesis using 1 2 3 4 5 by blast
qed

theorem improvement_selects_first_maximum_witness:
  "valid_params notebook_params \<and> store_ok notebook_params (initial_store notebook_params)
   \<and> (0::int) \<le> 3 \<and> 3 \<le> MAX_CARS notebook_params \<and> (0::int) \<le> 1 \<and> 1 \<le> MAX_CARS notebook_params
   \<and> 0 \<le> MAX_MOVE_OF_CARS notebook_params
   \<and> (\<exists>a. np_get (policy (snd (improve_state notebook_params True 3 1 True
                                  (initial_store notebook_params)))) 3 1 = Inr a
          \<and> a \<in> set (actions notebook_params)
          \<and> \<not> score_less
                (action_score notebook_params True (value_array (initial_store notebook_params)) 3 1 a)
                (action_score notebook_params True (value_array (initial_store notebook_params)) 3 1 0))"
proof -
  note h = valid_notebook_params initial_store_store_ok[of notebook_params] notebook_bounds
  have z: "0 \<in> set (actions notebook_params)" by (rule zero_in_actions[OF notebook_bounds(5)])
  from improvement_selects_first_maximum[OF h, of True True] z
  have "\<exists>a. np_get (policy (snd (improve_state notebook_params True 3 1 True
                                  (initial_store notebook_params)))) 3 1 = Inr a
          \<and> a \<in> set (actions notebook_params)
          \<and> \<not> score_less
                (action_score notebook_params True (value_array (initial_store notebook_params)) 3 1 a)
                (action_score notebook_params True (value_array (initial_store notebook_params)) 3 1 0)"
    by blast
  then show ?thesis using h by simp
qed

text \<open>
  Claim C5, as amended. For rates \<open>0 \<le> r < 10\<close>, two distinct (count, rate) pairs have
  distinct cache keys, and on a consistent cache \<open>poisson_probability count rate\<close>
  returns the probability mass of exactly that count under exactly that rate, also
  right after the other pair was requested and stored.
\<close>

theorem poisson_probability_small_rates:
  assumes "small_rate r1" "small_rate r2" "(c1, r1) \<noteq> (c2, r2)"
    and "cache_consistent (poisson_cache g)"
  shows "cache_key c1 r1 \<noteq> cache_key c2 r2
         \<and> fst (poisson_probability c1 r1 g) = Inr (poisson_pmf c1 r1)
         \<and> fst (poisson_probability c1 r1 (snd (poisson_probability c2 r2 g)))
             = Inr (poisson_pmf c1 r1)
         \<and> cache_consistent (poisson_cache (snd (poisson_probability c1 r1 g)))"
proof -
  have "cache_key c1 r1 \<noteq> cache_key c2 r2"
    using cache_key_inj[OF assms(1,2), of c1 c2] assms(3) by auto
  moreover have "cache_consistent (poisson_cache (snd (poisson_probability c2 r2 g)))"
    using poisson_probability_consistent[OF assms(2,4)] by simp
  ultimately show ?thesis
    using poisson_probability_consistent[OF assms(1)] assms(4) by simp
qed

theorem poisson_probability_small_rates_witness:
  "small_rate 3 \<and> small_rate 4 \<and> ((1::int), (3::int)) \<noteq> (0, 4)
   \<and> cache_consistent (poisson_cache (initial_store notebook_params))
   \<and> cache_key 1 3 \<noteq> cache_key 0 4
   \<and> fst (poisson_probability 1 3 (initial_store notebook_params)) = Inr (poisson_pmf 1 3)
   \<and> fst (poisson_probability 1 3 (snd (poisson_probability 0 4 (initial_store notebook_params))))
       = Inr (poisson_pmf 1 3)
   \<and> cache_consistent (poisson_cache (snd (poisson_probability 1 3 (initial_store notebook_params))))"
proof -
  have a: "small_rate 3" "small_rate 4" by (simp_all add: small_rate_def)
  have b: "((1::int), (3::int)) \<noteq> (0, 4)" by simp
  have c: "cache_consistent (poisson_cache (initial_store notebook_params))"
    using initial_store_ok[of notebook_params] by simp
  show ?thesis
    using poisson_probability_small_rates[OF a b c] a c by simp
qed

text \<open>
  The claim C5 as stated, for all rates, fails: the pairs \<open>(1, 3)\<close> and \<open>(0, 13)\<close> share
  the key \<open>13\<close>, and after a request for \<open>(0, 13)\<close> the request for \<open>(1, 3)\<close> returns the
  mass stored for \<open>(0, 13)\<close>.
\<close>

theorem poisson_cache_key_collision:
  "cache_key 1 3 = cache_key 0 13
   \<and> fst (poisson_probability 1 3 (snd (poisson_probability 0 13 (initial_store notebook_params))))
       = Inr (poisson_pmf 0 13)
   \<and> poisson_pmf 0 13 \<noteq> poisson_pmf 1 3"
  using pmf_collision
  by (simp add: cache_key_def poisson_probability_def initial_store_def Let_def)

text \<open>
  Claim C6. For a state in \<open>[0, MAX_CARS] \<times> [0, MAX_CARS]\<close> and an action that passes the
  feasibility test, every index pair \<open>expected_return\<close> reads from the value table, in
  the simplified and in the full branch, lies in \<open>[0, MAX_CARS]\<close> in each coordinate,
  the lookup there does not fail, and the call raises nothing. The return constants
  are not negative and the table has the shape \<open>(MAX_CARS + 1, MAX_CARS + 1)\<close>.
\<close>

theorem expected_return_reads_in_range:
  assumes "0 \<le> RETURNS_FIRST_LOC P" "0 \<le> RETURNS_SECOND_LOC P"
    and "table_shape P (value_array g)"
    and "0 \<le> n1" "n1 \<le> MAX_CARS P" "0 \<le> n2" "n2 \<le> MAX_CARS P" "feasible n1 n2 a"
  shows "(\<forall>ij\<in>set (table_reads P (n1, n2) a c).
            0 \<le> fst ij \<and> fst ij \<le> MAX_CARS P \<and> 0 \<le> snd ij \<and> snd ij \<le> MAX_CARS P
            \<and> np_get (value_array g) (fst ij) (snd ij) \<noteq> Inl IndexError)
         \<and> (\<forall>e. fst (expected_return P (n1, n2) a c g) \<noteq> Inl e)"
proof -
  have M: "0 \<le> MAX_CARS P" using assms(4,5) by simp
  have "0 \<le> fst ij \<and> fst ij \<le> MAX_CARS P \<and> 0 \<le> snd ij \<and> snd ij \<le> MAX_CARS P
        \<and> np_get (value_array g) (fst ij) (snd ij) \<noteq> Inl IndexError"
    if "ij \<in> set (table_reads P (n1, n2) a c)" for ij
    using table_reads_bounds[OF M assms(1,2) that] np_get_in_range[OF assms(3), of "fst ij" "snd ij"]
    by simp
  moreover have "fst (expected_return P (n1, n2) a c g) \<noteq> Inl e" for e
    by (rule expected_return_no_raise[OF M assms(1-3)])
  ultimately show ?thesis by blast
qed

theorem expected_return_reads_in_range_witness:
  "0 \<le> RETURNS_FIRST_LOC notebook_params \<and> 0 \<le> RETURNS_SECOND_LOC notebook_params
   \<and> table_shape notebook_params (value_array (initial_store notebook_params))
   \<and> (0::int) \<le> 3 \<and> 3 \<le> MAX_CARS notebook_params \<and> (0::int) \<le> 1 \<and> 1 \<le> MAX_CARS notebook_params
   \<and> feasible 3 1 2
   \<and> (3, 2) \<in> set (table_reads notebook_params (3, 1) 2 True)
   \<and> np_get (value_array (initial_store notebook_params)) 3 2 \<noteq> Inl IndexError
   \<and> fst (expected_return notebook_params (3, 1) 2 True (initial_store notebook_params))
       \<noteq> Inl IndexError"
proof -
  have a: "0 \<le> RETURNS_FIRST_LOC notebook_params" "0 \<le> RETURNS_SECOND_LOC notebook_params"
    by (simp_all add: notebook_params_def)
  have b: "table_shape notebook_params (value_array (initial_store notebook_params))"
    using initial_store_ok[of notebook_params] by simp
  have d: "(3::int) \<le> MAX_CARS notebook_params" "(1::int) \<le> MAX_CARS notebook_params"
    by (simp_all add: notebook_params_def)
  have e: "feasible 3 1 2" by (simp add: feasible_def)
  have f: "(0::int) \<le> 3" "(0::int) \<le> 1" by simp_all
  from expected_return_reads_in_range[OF a b f(1) d(1) f(2) d(2) e, of True]
    table_reads_notebook_True
  have "np_get (value_array (initial_store notebook_params)) 3 2 \<noteq> Inl IndexError"
    and "fst (expected_return notebook_params (3, 1) 2 True (initial_store notebook_params))
           \<noteq> Inl IndexError"
    by force+
  then show ?thesis using a b d e table_reads_notebook_True by simp
qed




text \<open>
  Claim C8. \<open>expected_return\<close> changes neither array, only the cache; and a second call
  with the same arguments and the same table contents, made at any later time (the
  cache holding at least what the first call left), returns the identical result.
\<close>

theorem expected_return_leaves_table_and_repeats:
  assumes "poisson_cache (snd (expected_return P state action c g)) \<subseteq>\<^sub>m poisson_cache h"
    and "value_array h = value_array g"
  shows "value_array (snd (expected_return P state action c g)) = value_array g
         \<and> policy (snd (expected_return P state action c g)) = policy g
         \<and> fst (expected_return P state action c h) = fst (expected_return P state action c g)
         \<and> value_array (snd (expected_return P state action c h)) = value_array h"
  using memoisingD(1,2)[OF memoising_expected_return[of P state action c], where g = g]
    memoisingD(4)[OF memoising_expected_return[of P state action c], where g = g and h = h]
    memoisingD(1)[OF memoising_expected_return[of P state action c], where g = h] assms
  by simp

theorem expected_return_leaves_table_and_repeats_witness:
  "poisson_cache (snd (expected_return notebook_params (3, 1) 2 True (initial_store notebook_params)))
     \<subseteq>\<^sub>m poisson_cache (snd (expected_return notebook_params (3, 1) 2 True (initial_store notebook_params)))
   \<and> value_array (snd (expected_return notebook_params (3, 1) 2 True (initial_store notebook_params)))
       = value_array (initial_store notebook_params)
   \<and> fst (expected_return notebook_params (3, 1) 2 True
            (snd (expected_return notebook_params (3, 1) 2 True (initial_store notebook_params))))
       = fst (expected_return notebook_params (3, 1) 2 True (initial_store notebook_params))"
proof -
  let ?g = "initial_store notebook_params"
  let ?h = "snd (expected_return notebook_params (3, 1) 2 True ?g)"
  have a: "poisson_cache ?h \<subseteq>\<^sub>m poisson_cache ?h" by (rule map_le_refl)
  have b: "value_array ?h = value_array ?g"
    by (rule memoisingD(1)[OF memoising_expected_return])
  show ?thesis
    using expected_return_leaves_table_and_repeats[OF a b] a b by simp
qed

text \<open>
  Claim C9, as amended. For a state with counts that are not negative and an action
  that passes the feasibility test, with state, action, table, rates, discount and move
  cost fixed, the result of \<open>expected_return\<close> does not decrease when the rental credit
  grows (so doubling a credit that is not negative never decreases it); at state
  \<open>(0, 0)\<close> with action \<open>0\<close> the result is the same for every rental credit.
\<close>

theorem expected_return_mono_rental_credit:
  assumes "valid_params P" "table_shape P (value_array g)" "cache_consistent (poisson_cache g)"
    and "0 \<le> n1" "0 \<le> n2" "feasible n1 n2 a"
    and "RENTAL_CREDIT P \<le> x"
  shows "\<exists>r r'. fst (expected_return P (n1, n2) a c g) = Inr r
           \<and> fst (expected_return (P\<lparr>RENTAL_CREDIT := x\<rparr>) (n1, n2) a c g) = Inr r'
           \<and> r \<le> r'
           \<and> fst (expected_return (P\<lparr>RENTAL_CREDIT := y\<rparr>) (0, 0) 0 c g)
               = fst (expected_return P (0, 0) 0 c g)"
proof -
  have M: "0 \<le> MAX_CARS P" using assms(1) by (simp add: valid_params_def)
  have "fst (expected_return (P\<lparr>RENTAL_CREDIT := z\<rparr>) s b c g)
          = Inr (expected_return_sum (P\<lparr>RENTAL_CREDIT := z\<rparr>) s b (value_array g) c)" for z s b
    by (rule expected_return_value) (simp_all add: valid_params_credit table_shape_credit assms)
  then show ?thesis
    using expected_return_value[OF assms(1-3)]
      expected_return_sum_mono_credit[OF assms(1,4-7)] expected_return_sum_no_cars[OF M]
    by simp
qed

theorem expected_return_mono_rental_credit_witness:
  "valid_params notebook_params
   \<and> table_shape notebook_params (value_array (initial_store notebook_params))
   \<and> cache_consistent (poisson_cache (initial_store notebook_params))
   \<and> (0::int) \<le> 3 \<and> (0::int) \<le> 1 \<and> feasible 3 1 2
   \<and> RENTAL_CREDIT notebook_params \<le> 2 * RENTAL_CREDIT notebook_params
   \<and> (\<exists>r r'. fst (expected_return notebook_params (3, 1) 2 True (initial_store notebook_params))
                  = Inr r
          \<and> fst (expected_return (notebook_params\<lparr>RENTAL_CREDIT := 2 * RENTAL_CREDIT notebook_params\<rparr>)
                   (3, 1) 2 True (initial_store notebook_params)) = Inr r'
          \<and> r \<le> r'
          \<and> fst (expected_return (notebook_params\<lparr>RENTAL_CREDIT := 0\<rparr>) (0, 0) 0 True
                   (initial_store notebook_params))
              = fst (expected_return notebook_params (0, 0) 0 True (initial_store notebook_params)))"
proof -
  have a: "valid_params notebook_params" by (rule valid_notebook_params)
  have b: "table_shape notebook_params (value_array (initial_store notebook_params))"
    and c: "cache_consistent (poisson_cache (initial_store notebook_params))"
    using initial_store_ok[of notebook_params] by simp_all
  have d: "(0::int) \<le> 3" "(0::int) \<le> 1" by simp_all
  have e: "feasible 3 1 2" by (simp add: feasible_def)
  have f: "RENTAL_CREDIT notebook_params \<le> 2 * RENTAL_CREDIT notebook_params"
    by (simp add: notebook_params_def)
  show ?thesis
    using expected_return_mono_rental_credit[OF a b c d e f, of True 0] a b c e f by simp
qed

text \<open>
  The claim C9 as stated, for every action, fails: at state \<open>(0, 0)\<close> the infeasible
  action \<open>1\<close> leaves \<open>-1\<close> cars at the first location, every outcome rents \<open>-1\<close> cars
  there, and doubling the credit from \<open>10\<close> to \<open>20\<close> lowers the result.
\<close>

theorem rental_credit_infeasible_action_decreases:
  "\<not> feasible 0 0 1
   \<and> fst (expected_return notebook_params (0, 0) 1 True (initial_store notebook_params))
       = Inr (expected_return_sum notebook_params (0, 0) 1
                (value_array (initial_store notebook_params)) True)
   \<and> fst (expected_return (notebook_params\<lparr>RENTAL_CREDIT := 20\<rparr>) (0, 0) 1 True
            (initial_store notebook_params))
       = Inr (expected_return_sum (notebook_params\<lparr>RENTAL_CREDIT := 20\<rparr>) (0, 0) 1
                (value_array (initial_store notebook_params)) True)
   \<and> RENTAL_CREDIT notebook_params < 20
   \<and> expected_return_sum (notebook_params\<lparr>RENTAL_CREDIT := 20\<rparr>) (0, 0) 1
         (value_array (initial_store notebook_params)) True
       < expected_return_sum notebook_params (0, 0) 1
           (value_array (initial_store notebook_params)) True"
proof -
  let ?g = "initial_store notebook_params"
  have b: "table_shape notebook_params (value_array ?g)"
    and c: "cache_consistent (poisson_cache ?g)"
    using initial_store_ok[of notebook_params] by simp_all
  have 1: "fst (expected_return notebook_params (0, 0) 1 True ?g)
       = Inr (expected_return_sum notebook_params (0, 0) 1 (value_array ?g) True)"
    by (rule expected_return_value[OF valid_notebook_params b c])
  have 2: "fst (expected_return (notebook_params\<lparr>RENTAL_CREDIT := 20\<rparr>) (0, 0) 1 True ?g)
       = Inr (expected_return_sum (notebook_params\<lparr>RENTAL_CREDIT := 20\<rparr>) (0, 0) 1
                (value_array ?g) True)"
    by (rule expected_return_value)
       (simp_all add: valid_params_credit table_shape_credit valid_notebook_params b c)
  have cr: "RENTAL_CREDIT notebook_params = 10" by (simp add: notebook_params_def)
  have 3: "expected_return_sum (notebook_params\<lparr>RENTAL_CREDIT := 20\<rparr>) (0, 0) 1 (value_array ?g) True
       < expected_return_sum notebook_params (0, 0) 1 (value_array ?g) True"
    unfolding expected_return_sum_credit cr
    using rentals_weight_infeasible by simp
  show ?thesis using 1 2 3 cr by (simp add: feasible_def)
qed

text \<open>
  Claim C10. For every state \<open>(i, j)\<close> of the table, the action \<open>0\<close> is a candidate and
  passes the feasibility test, so \<open>action_returns\<close> holds a finite entry; the
  improvement of the state raises nothing, and the action it writes to
  \<open>policy[i, j]\<close> is feasible for \<open>(i, j)\<close> and lies in
  \<open>[- MAX_MOVE_OF_CARS, MAX_MOVE_OF_CARS]\<close>. The store it leaves is again one in which
  this holds, so it holds for every state of every sweep.
\<close>

theorem improvement_writes_feasible_action:
  assumes "valid_params P" "store_ok P g"
    and "0 \<le> i" "i \<le> MAX_CARS P" "0 \<le> j" "j \<le> MAX_CARS P"
    and "0 \<le> MAX_MOVE_OF_CARS P"
  shows "feasible i j 0 \<and> 0 \<in> set (actions P)
         \<and> (\<exists>rs r. fst (action_returns P c i j g) = Inr rs \<and> Finite r \<in> set rs)
         \<and> (\<exists>stable a. fst (improve_state P c i j st g) = Inr stable
               \<and> np_get (policy (snd (improve_state P c i j st g))) i j = Inr a
               \<and> feasible i j a \<and> - MAX_MOVE_OF_CARS P \<le> a \<and> a \<le> MAX_MOVE_OF_CARS P)
         \<and> store_ok P (snd (improve_state P c i j st g))"
proof -
  let ?V = "value_array g"
  let ?rs = "map (action_score P c ?V i j) (actions P)"
  let ?a = "greedy_action P c ?V i j"
  from improve_state_run[OF assms, of c st] obtain g1 where
    ar: "action_returns P c i j g = (Inr ?rs, g1)"
    and g1: "cache_consistent (poisson_cache g1)" "value_array g1 = ?V"
    and im: "improve_state P c i j st g
               = (Inr (if st \<and> policy g ! nat i ! nat j \<noteq> ?a then False else st),
                  g1\<lparr>policy := (policy g)[nat i := (policy g ! nat i)[nat j := ?a]]\<rparr>)"
    by blast
  have shP: "table_shape P (policy g)" and shV: "table_shape P ?V"
    using assms(2) by (simp_all add: store_ok_def)
  have 1: "feasible i j 0" by (rule feasible_zero[OF assms(3)])
  have 2: "0 \<in> set (actions P)" by (rule zero_in_actions[OF assms(7)])
  have "Finite (expected_return_sum P (i, j) 0 ?V c) \<in> set ?rs"
    using 1 2 by (auto simp: action_score_def image_iff intro!: bexI[of _ 0])
  then have 3: "\<exists>rs r. fst (action_returns P c i j g) = Inr rs \<and> Finite r \<in> set rs"
    using ar by (intro exI[of _ ?rs] exI[of _ "expected_return_sum P (i, j) 0 ?V c"]) simp
  have 4: "np_get (policy (snd (improve_state P c i j st g))) i j = Inr ?a"
    using np_get_after_update[OF shP assms(3-6)] by (simp add: im)
  have 5: "feasible i j ?a" "- MAX_MOVE_OF_CARS P \<le> ?a" "?a \<le> MAX_MOVE_OF_CARS P"
    using greedy_action_feasible[OF assms(7,3), of j c ?V] by (simp_all add: set_actions)
  have 6: "store_ok P (snd (improve_state P c i j st g))"
    using g1 shV table_shape_update[OF shP] by (simp add: im store_ok_def)
  have 7: "\<exists>stable a. fst (improve_state P c i j st g) = Inr stable
               \<and> np_get (policy (snd (improve_state P c i j st g))) i j = Inr a
               \<and> feasible i j a \<and> - MAX_MOVE_OF_CARS P \<le> a \<and> a \<le> MAX_MOVE_OF_CARS P"
    using 4 5 by (intro exI[of _ "if st \<and> policy g ! nat i ! nat j \<noteq> ?a then False else st"]
        exI[of _ ?a]) (simp add: im)
  show ?thesis using 1 2 3 6 7 by blast
qed

theorem improvement_writes_feasible_action_witness:
  "valid_params notebook_params \<and> store_ok notebook_params (initial_store notebook_params)
   \<and> (0::int) \<le> 3 \<and> 3 \<le> MAX_CARS notebook_params \<and> (0::int) \<le> 1 \<and> 1 \<le> MAX_CARS notebook_params
   \<and> 0 \<le> MAX_MOVE_OF_CARS notebook_params
   \<and> feasible 3 1 0 \<and> 0 \<in> set (actions notebook_params)
   \<and> (\<exists>rs r. fst (action_returns notebook_params True 3 1 (initial_store notebook_params)) = Inr rs
          \<and> Finite r \<in> set rs)
   \<and> (\<exists>stable a. fst (improve_state notebook_params True 3 1 True (initial_store notebook_params))
                     = Inr stable
          \<and> np_get (policy (snd (improve_state notebook_params True 3 1 True
                                    (initial_store notebook_params)))) 3 1 = Inr a
          \<and> feasible 3 1 a \<and> - MAX_MOVE_OF_CARS notebook_params \<le> a
          \<and> a \<le> MAX_MOVE_OF_CARS notebook_params)
   \<and> store_ok notebook_params
        (snd (improve_state notebook_params True 3 1 True (initial_store notebook_params)))"
proof -
  note h = valid_notebook_params initial_store_store_ok[of notebook_params] notebook_bounds
  show ?thesis
    using improvement_writes_feasible_action[OF h, of True True] h by simp
qed

end
